theory Spec2Isabelle
  imports Main "HOL-Library.AList"
begin

section \<open>JavaScript values\<close>

text \<open>
  The values the utilities of \<^verbatim>\<open>lib/utils.ts\<close> receive are typed \<^verbatim>\<open>any\<close> or
  \<^verbatim>\<open>unknown\<close>. They are modelled as JSON-like values: an object is the list of its own
  enumerable properties in insertion order (a JavaScript object has each key once), an
  array the list of its elements. Numbers are integers and the code units of a string
  are \<^typ>\<open>char\<close>s. The objects and arrays are plain: they inherit from
  \<^verbatim>\<open>Object.prototype\<close> and \<^verbatim>\<open>Array.prototype\<close>. Those built-in prototypes are
  values too, since reading \<^verbatim>\<open>__proto__\<close> yields them.
\<close>

datatype prototype =
    ObjectPrototype
  | ArrayPrototype
  | StringPrototype
  | NumberPrototype
  | BooleanPrototype

datatype js_val =
    VUndefined
  | VNull
  | VBool bool
  | VNum int
  | VStr string
  | VArr "js_val list"
  | VObj "(string \<times> js_val) list"
  | VPrototype prototype

text \<open>
  What a \<^verbatim>\<open>throw\<close> can carry: an instance of \<^verbatim>\<open>Error\<close> (with its
  \<^verbatim>\<open>message\<close>), or any other value.
\<close>

datatype js_thrown =
    ErrorObject string
  | Thrown js_val

text \<open>
  What an \<^verbatim>\<open>async\<close> function of \<^verbatim>\<open>user.actions.ts\<close> resolves with:
  \<^verbatim>\<open>undefined\<close> (the body ended without \<^verbatim>\<open>return\<close>), \<^verbatim>\<open>null\<close>, or a value.
\<close>

datatype 'a resolved = Undefined | Null | Value 'a

subsection \<open>\<^verbatim>\<open>JSON.stringify\<close> of a string\<close>

definition hex_digit :: "nat \<Rightarrow> char" where
  "hex_digit n = ''0123456789abcdef'' ! (n mod 16)"

text \<open>
  ECMAScript's QuoteJSONString on one code unit: the double quote (0x22) and the
  backslash (0x5C) are escaped with a backslash, the control characters have their short
  escapes or \<^verbatim>\<open>\u00XX\<close>, every other code unit stands for itself.
\<close>

definition json_quote_char :: "char \<Rightarrow> string" where
  "json_quote_char c =
     (if c = CHR 0x22 then [CHR 0x5C, CHR 0x22]
      else if c = CHR 0x5C then [CHR 0x5C, CHR 0x5C]
      else if c = CHR 0x08 then [CHR 0x5C, CHR ''b'']
      else if c = CHR 0x0C then [CHR 0x5C, CHR ''f'']
      else if c = CHR 0x0A then [CHR 0x5C, CHR ''n'']
      else if c = CHR 0x0D then [CHR 0x5C, CHR ''r'']
      else if c = CHR 0x09 then [CHR 0x5C, CHR ''t'']
      else if of_char c < (0x20 :: nat) then
        [CHR 0x5C, CHR ''u'', CHR ''0'', CHR ''0'',
         hex_digit (of_char c div 16), hex_digit (of_char c mod 16)]
      else [c])"

definition JSON_stringify_string :: "string \<Rightarrow> string" where
  "JSON_stringify_string str = [CHR 0x22] @ concat (map json_quote_char str) @ [CHR 0x22]"

section \<open>\<^verbatim>\<open>deepMergeObjects\<close>\<close>

text \<open>The \<^verbatim>\<open>typeof\<close> operator and the truthiness of a value.\<close>

fun typeof :: "js_val \<Rightarrow> string" where
  "typeof VUndefined = ''undefined''"
| "typeof VNull = ''object''"
| "typeof (VBool b) = ''boolean''"
| "typeof (VNum n) = ''number''"
| "typeof (VStr s) = ''string''"
| "typeof (VArr xs) = ''object''"
| "typeof (VObj kvs) = ''object''"
| "typeof (VPrototype p) = ''object''"

fun truthy :: "js_val \<Rightarrow> bool" where
  "truthy VUndefined = False"
| "truthy VNull = False"
| "truthy (VBool b) = b"
| "truthy (VNum n) = (n \<noteq> 0)"
| "truthy (VStr s) = (s \<noteq> [])"
| "truthy (VArr xs) = True"
| "truthy (VObj kvs) = True"
| "truthy (VPrototype p) = True"

text \<open>
  The own enumerable properties of a value, which is what \<^verbatim>\<open>{ ...v }\<close> copies and
  what \<^verbatim>\<open>for (key in v)\<close> with the \<^verbatim>\<open>hasOwnProperty\<close> test visits: the
  properties of an object, the elements of an array and the characters of a string under
  their decimal indices, nothing for the other values (a built-in prototype has no
  enumerable property).
\<close>

definition digit_char :: "nat \<Rightarrow> char" where
  "digit_char n = char_of (48 + n mod 10)"

fun string_of_nat :: "nat \<Rightarrow> string" where
  "string_of_nat n =
     (if n < 10 then [digit_char n] else string_of_nat (n div 10) @ [digit_char n])"

declare string_of_nat.simps [simp del]

fun index_props :: "nat \<Rightarrow> js_val list \<Rightarrow> (string \<times> js_val) list" where
  "index_props i [] = []"
| "index_props i (x # xs) = (string_of_nat i, x) # index_props (Suc i) xs"

fun own_props :: "js_val \<Rightarrow> (string \<times> js_val) list" where
  "own_props (VObj kvs) = kvs"
| "own_props (VArr xs) = index_props 0 xs"
| "own_props (VStr str) = index_props 0 (map (\<lambda>c. VStr [c]) str)"
| "own_props v = []"

text \<open>
  The prototype a value inherits from, which is what reading \<^verbatim>\<open>v["__proto__"]\<close>
  gives when \<open>v\<close> has no own property of that name. (\<^verbatim>\<open>deepMergeObjects\<close> reads
  no property of \<^verbatim>\<open>null\<close> or \<^verbatim>\<open>undefined\<close>.)
\<close>

fun prototype_of :: "js_val \<Rightarrow> js_val" where
  "prototype_of (VObj kvs) = VPrototype ObjectPrototype"
| "prototype_of (VArr xs) = VPrototype ArrayPrototype"
| "prototype_of (VStr str) = VPrototype StringPrototype"
| "prototype_of (VNum n) = VPrototype NumberPrototype"
| "prototype_of (VBool b) = VPrototype BooleanPrototype"
| "prototype_of (VPrototype ObjectPrototype) = VNull"
| "prototype_of (VPrototype p) = VPrototype ObjectPrototype"
| "prototype_of v = VNull"

text \<open>
  \<^verbatim>\<open>obj[key]\<close>: the own property of that name; without one, the prototype for the key
  \<^verbatim>\<open>__proto__\<close>. Every other member a value inherits from a built-in prototype is a
  function (or the number \<^verbatim>\<open>length\<close> of an array or a string): none of them is an
  object, and \<^verbatim>\<open>deepMergeObjects\<close> only asks of \<^verbatim>\<open>obj2[key]\<close> whether it is one, so
  the model reads \<^verbatim>\<open>undefined\<close> for them.
\<close>

definition get_prop :: "js_val \<Rightarrow> string \<Rightarrow> js_val" where
  "get_prop obj key =
     (case map_of (own_props obj) key of
        Some v \<Rightarrow> v
      | None \<Rightarrow> if key = ''__proto__'' then prototype_of obj else VUndefined)"

text \<open>The test of the loop: \<^verbatim>\<open>v && typeof v === "object"\<close>.\<close>

definition is_object :: "js_val \<Rightarrow> bool" where
  "is_object v = (truthy v \<and> typeof v = ''object'')"

text \<open>
  The assignment \<^verbatim>\<open>output[key] = v\<close> on the object under construction, as far as its
  own properties go: the value of a key the object has is replaced and a new key is
  appended, except that assigning to \<^verbatim>\<open>__proto__\<close> on an object without an own
  property of that name runs the setter inherited from \<^verbatim>\<open>Object.prototype\<close> and
  creates no property (the setter changes the prototype of \<^verbatim>\<open>output\<close>, which is not
  part of a \<^typ>\<open>js_val\<close>).
\<close>

definition set_prop ::
  "string \<Rightarrow> js_val \<Rightarrow> (string \<times> js_val) list \<Rightarrow> (string \<times> js_val) list" where
  "set_prop key v output =
     (if key = ''__proto__'' \<and> key \<notin> set (map fst output) then output
      else AList.update key v output)"

text \<open>
  The call \<^verbatim>\<open>obj1.hasOwnProperty(key)\<close> finds the method on the prototype unless
  \<^verbatim>\<open>obj1\<close> has an own property named \<^verbatim>\<open>hasOwnProperty\<close>; the values of a
  \<^typ>\<open>js_val\<close> are no functions, so calling such an own property throws a
  \<^verbatim>\<open>TypeError\<close>.
\<close>

fun shadows_hasOwnProperty :: "js_val \<Rightarrow> bool" where
  "shadows_hasOwnProperty (VObj kvs) = (''hasOwnProperty'' \<in> set (map fst kvs))"
| "shadows_hasOwnProperty v = False"

definition not_a_function :: js_thrown where
  "not_a_function = ErrorObject ''obj1.hasOwnProperty is not a function''"

text \<open>
  The measure under which the recursion ends: twice the size of each object still to be
  visited, and the number of keys left in the loop.
\<close>

definition object_weight :: "js_val \<Rightarrow> nat" where
  "object_weight v = (if is_object v then 2 * size v + 2 else 0)"

definition props_weight :: "(string \<times> js_val) list \<Rightarrow> nat" where
  "props_weight kvs = sum_list (map (\<lambda>kv. object_weight (snd kv)) kvs)"

lemma props_weight_simps [simp]:
  "props_weight [] = 0"
  "props_weight ((k, v) # kvs) = object_weight v + props_weight kvs"
  by (simp_all add: props_weight_def)

lemma object_weight_le: "object_weight v \<le> 2 * size v + 2"
  by (simp add: object_weight_def)

lemma props_weight_index: "props_weight (index_props i xs) \<le> 2 * size_list size xs"
proof (induction xs arbitrary: i)
  case Nil
  then show ?case by simp
next
  case (Cons x xs)
  from Cons.IH [of "Suc i"] object_weight_le [of x] show ?case by simp
qed

lemma props_weight_obj:
  "props_weight kvs \<le> 2 * size_list (size_prod (\<lambda>k. 0) size) kvs"
proof (induction kvs)
  case Nil
  then show ?case by simp
next
  case (Cons kv kvs)
  obtain k v where "kv = (k, v)" by (cases kv)
  with Cons object_weight_le [of v] show ?case by simp
qed

lemma props_weight_chars: "props_weight (index_props i (map (\<lambda>c. VStr [c]) str)) = 0"
  by (induction str arbitrary: i) (simp_all add: object_weight_def is_object_def)

lemma props_weight_own: "props_weight (own_props obj1) < Suc (2 * size obj1)"
proof (cases obj1)
  case (VArr xs)
  with props_weight_index [of 0 xs] show ?thesis by simp
next
  case (VObj kvs)
  with props_weight_obj [of kvs] show ?thesis by simp
next
  case (VStr str)
  with props_weight_chars [of 0 str] show ?thesis by simp
qed simp_all

text \<open>
  \<^verbatim>\<open>deepMergeObjects\<close> of \<^verbatim>\<open>lib/utils.ts\<close>: \<open>Inl\<close> is the error it throws,
  \<open>Inr\<close> the value it returns. \<open>merge_own_keys\<close> is its
  \<^verbatim>\<open>for (let key in obj1)\<close> loop over the keys still to visit, \<open>output\<close> the own
  properties of the object under construction (started as the copy \<^verbatim>\<open>{ ...obj2 }\<close>).
  Each round first calls \<^verbatim>\<open>obj1.hasOwnProperty(key)\<close>, then reads \<^verbatim>\<open>obj1[key]\<close>
  (the own value \<open>v\<close>) and \<^verbatim>\<open>obj2[key]\<close>, and assigns to \<^verbatim>\<open>output[key]\<close>.
\<close>

function deepMergeObjects :: "js_val \<Rightarrow> js_val \<Rightarrow> js_thrown + js_val"
  and merge_own_keys ::
    "js_val \<Rightarrow> (string \<times> js_val) list \<Rightarrow> js_val \<Rightarrow> (string \<times> js_val) list \<Rightarrow>
     js_thrown + (string \<times> js_val) list"
  where
  "deepMergeObjects obj1 obj2 =
     (if obj2 = VNull \<or> obj2 = VUndefined then Inr obj1
      else
        (case merge_own_keys obj1 (own_props obj1) obj2 (own_props obj2) of
           Inl e \<Rightarrow> Inl e
         | Inr output \<Rightarrow> Inr (VObj output)))"
| "merge_own_keys obj1 [] obj2 output = Inr output"
| "merge_own_keys obj1 ((key, v) # rest) obj2 output =
     (if shadows_hasOwnProperty obj1 then Inl not_a_function
      else if truthy v \<and> typeof v = ''object'' \<and>
              truthy (get_prop obj2 key) \<and> typeof (get_prop obj2 key) = ''object''
      then
        (case deepMergeObjects v (get_prop obj2 key) of
           Inl e \<Rightarrow> Inl e
         | Inr merged \<Rightarrow> merge_own_keys obj1 rest obj2 (set_prop key merged output))
      else merge_own_keys obj1 rest obj2 (set_prop key v output))"
  by pat_completeness auto
termination
  by (relation "measures
       [\<lambda>x. case x of Inl (obj1, obj2) \<Rightarrow> 2 * size obj1 + 1
                       | Inr (obj1, kvs, obj2, output) \<Rightarrow> props_weight kvs,
        \<lambda>x. case x of Inl (obj1, obj2) \<Rightarrow> 0
                       | Inr (obj1, kvs, obj2, output) \<Rightarrow> length kvs]")
    (simp_all add: props_weight_own object_weight_def is_object_def)

text \<open>No object within the value has an own property named \<^verbatim>\<open>hasOwnProperty\<close>.\<close>

fun hasOwnProperty_free :: "js_val \<Rightarrow> bool" where
  "hasOwnProperty_free (VObj kvs) =
     (''hasOwnProperty'' \<notin> set (map fst kvs) \<and> (\<forall>kv \<in> set kvs. hasOwnProperty_free (snd kv)))"
| "hasOwnProperty_free (VArr xs) = (\<forall>x \<in> set xs. hasOwnProperty_free x)"
| "hasOwnProperty_free v = True"

section \<open>The user collection and its store\<close>

text \<open>
  \<^verbatim>\<open>interface CreateUserParams\<close> of \<^verbatim>\<open>user.actions.ts\<close>. Every field is required
  by the type, so a creation input names all ten. The two numbers are integers.
\<close>

record CreateUserParams =
  clerkId :: string
  email :: string
  username :: string
  photo :: string
  firstname :: string
  lastname :: string
  planId :: int
  creditBalance :: int
  stripeId :: string
  stripeCustomerId :: string

text \<open>
  A primary key (\<^verbatim>\<open>_id\<close>, a Mongo ObjectId). The actions pass it around as its
  hexadecimal string, which names the ObjectId one to one; the model keeps the ObjectId.
\<close>

type_synonym object_id = nat

text \<open>A stored user: the fields of the creation input and the primary key \<^verbatim>\<open>_id\<close>.\<close>

record user_doc = CreateUserParams +
  oid :: object_id

text \<open>
  The payload of \<^verbatim>\<open>updateUser\<close>: an object naming some of the fields of
  \<^verbatim>\<open>interface UpdateUserParams\<close>. A field the payload does not name is \<open>None\<close>.
\<close>

record UpdateUserParams =
  upd_email :: "string option"
  upd_username :: "string option"
  upd_photo :: "string option"
  upd_firstname :: "string option"
  upd_lastname :: "string option"
  upd_planId :: "int option"
  upd_creditBalance :: "int option"
  upd_stripeId :: "string option"
  upd_stripeCustomerId :: "string option"

text \<open>The query filters and update documents the actions hand to the User model.\<close>

datatype db_filter = ByClerkId string | ById object_id

datatype db_update = SetFields UpdateUserParams | IncCreditBalance int

text \<open>One call of a method of the User model, as the store sees it.\<close>

datatype db_call =
    CallCreate CreateUserParams
  | CallFindOne db_filter
  | CallFindOneAndUpdate db_filter db_update
  | CallFindOneAndDelete db_filter
  | CallFindByIdAndDelete object_id

text \<open>
  The world the actions run in: the user collection in insertion order, the next fresh
  primary key, the cached connection and how many connections were ever opened, the
  failures the backing store is going to raise (one entry per request that reaches it,
  \<open>None\<close> for a request that goes through; an empty list means no failure), the
  calls the User model has received, the lines written by \<^verbatim>\<open>console.error\<close> and the
  paths handed to \<^verbatim>\<open>revalidatePath\<close>.
\<close>

record store =
  docs :: "user_doc list"
  next_oid :: object_id
  cached_conn :: bool
  connections :: nat
  faults :: "js_thrown option list"
  calls :: "db_call list"
  console :: "string list"
  revalidated :: "string list"

definition next_fault :: "store \<Rightarrow> js_thrown option \<times> store" where
  "next_fault s =
     (case faults s of
        [] \<Rightarrow> (None, s)
      | f # fs \<Rightarrow> (f, s\<lparr>faults := fs\<rparr>))"

definition fault_free :: "store \<Rightarrow> bool" where
  "fault_free s = list_all (\<lambda>f. f = None) (faults s)"

definition record_call :: "db_call \<Rightarrow> store \<Rightarrow> store" where
  "record_call c s = s\<lparr>calls := calls s @ [c]\<rparr>"

text \<open>
  Modelled from the spec: \<^verbatim>\<open>connectToDatabase\<close> (\<^verbatim>\<open>lib/database/mongoose.ts\<close>) is
  not among the sources. The spec has it lazily initialised on first use, reused across
  calls (a repeated call opens no further connection), and failing with the store's error
  when the connection cannot be made.
\<close>

definition connectToDatabase :: "store \<Rightarrow> (js_thrown + unit) \<times> store" where
  "connectToDatabase s =
     (if cached_conn s then (Inr (), s)
      else
        (case next_fault s of
           (Some e, s') \<Rightarrow> (Inl e, s')
         | (None, s') \<Rightarrow> (Inr (), s'\<lparr>cached_conn := True, connections := connections s' + 1\<rparr>)))"

subsection \<open>The methods of the User model\<close>

fun matches :: "db_filter \<Rightarrow> user_doc \<Rightarrow> bool" where
  "matches (ByClerkId c) d = (clerkId d = c)"
| "matches (ById i) d = (oid d = i)"

definition set_fields :: "UpdateUserParams \<Rightarrow> user_doc \<Rightarrow> user_doc" where
  "set_fields p d =
     d\<lparr>email := (case upd_email p of None \<Rightarrow> email d | Some v \<Rightarrow> v),
       username := (case upd_username p of None \<Rightarrow> username d | Some v \<Rightarrow> v),
       photo := (case upd_photo p of None \<Rightarrow> photo d | Some v \<Rightarrow> v),
       firstname := (case upd_firstname p of None \<Rightarrow> firstname d | Some v \<Rightarrow> v),
       lastname := (case upd_lastname p of None \<Rightarrow> lastname d | Some v \<Rightarrow> v),
       planId := (case upd_planId p of None \<Rightarrow> planId d | Some v \<Rightarrow> v),
       creditBalance := (case upd_creditBalance p of None \<Rightarrow> creditBalance d | Some v \<Rightarrow> v),
       stripeId := (case upd_stripeId p of None \<Rightarrow> stripeId d | Some v \<Rightarrow> v),
       stripeCustomerId :=
         (case upd_stripeCustomerId p of None \<Rightarrow> stripeCustomerId d | Some v \<Rightarrow> v)\<rparr>"

text \<open>
  The numbers of a record are JavaScript numbers, that is IEEE 754 doubles; those of the
  ledger are whole numbers, which the model keeps as integers. Every integer up to
  \<open>2 ^ 53\<close> in magnitude is a double; beyond, the doubles are the multiples of a
  power of two (\<open>2 ^ (n - 53)\<close> for a magnitude of \<open>n\<close> bits), and the sum of two
  doubles is the exact sum rounded to the nearest double, a tie going to the one with
  the even significand. (A sum of magnitude \<open>2 ^ 1024\<close> or more is \<^verbatim>\<open>Infinity\<close> in
  JavaScript, which is no integer: nothing below is stated of such sums.)
\<close>

fun bit_length :: "nat \<Rightarrow> nat" where
  "bit_length n = (if n = 0 then 0 else Suc (bit_length (n div 2)))"

declare bit_length.simps [simp del]

definition round_ties_even :: "int \<Rightarrow> int \<Rightarrow> int" where
  "round_ties_even n m =
     (let q = n div m; r = n mod m
      in if 2 * r < m then q * m
         else if m < 2 * r then (q + 1) * m
         else if even q then q * m else (q + 1) * m)"

definition round_double :: "int \<Rightarrow> int" where
  "round_double n =
     (if \<bar>n\<bar> \<le> 2 ^ 53 then n
      else round_ties_even n (2 ^ (bit_length (nat \<bar>n\<bar>) - 53)))"

definition js_add :: "int \<Rightarrow> int \<Rightarrow> int" where
  "js_add a b = round_double (a + b)"

text \<open>\<^verbatim>\<open>Number.isSafeInteger\<close>: at most \<open>2 ^ 53 - 1\<close> in magnitude.\<close>

definition safe_integer :: "int \<Rightarrow> bool" where
  "safe_integer n = (\<bar>n\<bar> \<le> 9007199254740991)"

text \<open>
  An update document applied to one stored user: a plain object of fields is a
  \<^verbatim>\<open>$set\<close> of the fields it names, \<^verbatim>\<open>{ $inc: { creditBalance: n } }\<close> adds \<open>n\<close>
  to the balance inside the store, as numbers add.
\<close>

fun apply_update :: "db_update \<Rightarrow> user_doc \<Rightarrow> user_doc" where
  "apply_update (SetFields p) d = set_fields p d"
| "apply_update (IncCreditBalance n) d = d\<lparr>creditBalance := js_add (creditBalance d) n\<rparr>"

text \<open>The first document that satisfies a filter, replaced or removed where it stands.\<close>

fun update_first :: "('a \<Rightarrow> bool) \<Rightarrow> ('a \<Rightarrow> 'a) \<Rightarrow> 'a list \<Rightarrow> 'a list" where
  "update_first P f [] = []"
| "update_first P f (x # xs) = (if P x then f x # xs else x # update_first P f xs)"

fun delete_first :: "('a \<Rightarrow> bool) \<Rightarrow> 'a list \<Rightarrow> 'a list" where
  "delete_first P [] = []"
| "delete_first P (x # xs) = (if P x then xs else x # delete_first P xs)"

text \<open>
  Modelled from the spec: the User schema (\<^verbatim>\<open>lib/database/models/user.model.ts\<close>) is
  not among the sources. The spec has \<^verbatim>\<open>clerkId\<close> unique among the live records and
  the primary key assigned by the database; \<^verbatim>\<open>User.create\<close> therefore rejects an
  input whose \<^verbatim>\<open>clerkId\<close> is taken, and otherwise appends the input under a fresh key.
\<close>

definition duplicate_key :: js_thrown where
  "duplicate_key = ErrorObject ''E11000 duplicate key error''"

definition User_create :: "CreateUserParams \<Rightarrow> store \<Rightarrow> (js_thrown + user_doc) \<times> store" where
  "User_create user s =
     (case next_fault (record_call (CallCreate user) s) of
        (Some e, s') \<Rightarrow> (Inl e, s')
      | (None, s') \<Rightarrow>
          if clerkId user \<in> set (map clerkId (docs s')) then (Inl duplicate_key, s')
          else
            (let d = CreateUserParams.extend user (user_doc.fields (next_oid s'))
             in (Inr d, s'\<lparr>docs := docs s' @ [d], next_oid := Suc (next_oid s')\<rparr>)))"

definition User_findOne :: "db_filter \<Rightarrow> store \<Rightarrow> (js_thrown + user_doc option) \<times> store" where
  "User_findOne flt s =
     (case next_fault (record_call (CallFindOne flt) s) of
        (Some e, s') \<Rightarrow> (Inl e, s')
      | (None, s') \<Rightarrow> (Inr (find (matches flt) (docs s')), s'))"

text \<open>
  \<^verbatim>\<open>findOneAndUpdate(filter, update, { new: true })\<close>: one request to the store, which
  finds the first match, applies the update to it and answers with the document as it is
  after the update (\<^verbatim>\<open>null\<close> when nothing matches).
\<close>

definition User_findOneAndUpdate ::
  "db_filter \<Rightarrow> db_update \<Rightarrow> store \<Rightarrow> (js_thrown + user_doc option) \<times> store" where
  "User_findOneAndUpdate flt upd s =
     (case next_fault (record_call (CallFindOneAndUpdate flt upd) s) of
        (Some e, s') \<Rightarrow> (Inl e, s')
      | (None, s') \<Rightarrow>
          (Inr (map_option (apply_update upd) (find (matches flt) (docs s'))),
           s'\<lparr>docs := update_first (matches flt) (apply_update upd) (docs s')\<rparr>))"

text \<open>
  \<^verbatim>\<open>findOneAndDelete(filter)\<close>: one request, which removes the first match and answers
  with the removed document (\<^verbatim>\<open>null\<close> when nothing matches).
\<close>

definition User_findOneAndDelete ::
  "db_filter \<Rightarrow> store \<Rightarrow> (js_thrown + user_doc option) \<times> store" where
  "User_findOneAndDelete flt s =
     (case next_fault (record_call (CallFindOneAndDelete flt) s) of
        (Some e, s') \<Rightarrow> (Inl e, s')
      | (None, s') \<Rightarrow>
          (Inr (find (matches flt) (docs s')),
           s'\<lparr>docs := delete_first (matches flt) (docs s')\<rparr>))"

definition User_findByIdAndDelete ::
  "object_id \<Rightarrow> store \<Rightarrow> (js_thrown + user_doc option) \<times> store" where
  "User_findByIdAndDelete i s =
     (case next_fault (record_call (CallFindByIdAndDelete i) s) of
        (Some e, s') \<Rightarrow> (Inl e, s')
      | (None, s') \<Rightarrow>
          (Inr (find (matches (ById i)) (docs s')),
           s'\<lparr>docs := delete_first (matches (ById i)) (docs s')\<rparr>))"

definition revalidatePath :: "string \<Rightarrow> store \<Rightarrow> store" where
  "revalidatePath p s = s\<lparr>revalidated := revalidated s @ [p]\<rparr>"

text \<open>
  \<^verbatim>\<open>JSON.parse(JSON.stringify(doc))\<close>: the document as a plain object. Its fields are
  strings and integers, which the round trip keeps as they are.
\<close>

definition JSON_roundtrip :: "user_doc \<Rightarrow> user_doc" where
  "JSON_roundtrip d = d"

section \<open>\<^verbatim>\<open>handleError\<close>\<close>

definition console_error :: "string \<Rightarrow> store \<Rightarrow> store" where
  "console_error line s = s\<lparr>console := console s @ [line]\<rparr>"

text \<open>
  \<^verbatim>\<open>handleError\<close> of \<^verbatim>\<open>lib/utils.ts\<close>: \<open>Inl\<close> is the error it throws, \<open>Inr ()\<close>
  is a normal return (its two branches cover an \<^verbatim>\<open>Error\<close> and a string; for any other
  value no branch is taken).
\<close>

fun handleError :: "js_thrown \<Rightarrow> store \<Rightarrow> (js_thrown + unit) \<times> store" where
  "handleError (ErrorObject message) s =
     (Inl (ErrorObject (''Error: '' @ message)), console_error message s)"
| "handleError (Thrown (VStr str)) s =
     (Inl (ErrorObject (''Unknown error: '' @ JSON_stringify_string str)), console_error str s)"
| "handleError (Thrown v) s = (Inr (), s)"

text \<open>
  The shape every action shares: \<^verbatim>\<open>try { body } catch (err) { handleError(err); }\<close>.
  When \<^verbatim>\<open>handleError\<close> returns, the function ends without a \<^verbatim>\<open>return\<close> and the
  promise resolves with \<^verbatim>\<open>undefined\<close>.
\<close>

definition try_catch ::
  "(js_thrown + 'a resolved) \<times> store \<Rightarrow> (js_thrown + 'a resolved) \<times> store" where
  "try_catch r =
     (case r of
        (Inr v, s) \<Rightarrow> (Inr v, s)
      | (Inl err, s) \<Rightarrow>
          (case handleError err s of
             (Inl e, s') \<Rightarrow> (Inl e, s')
           | (Inr u, s') \<Rightarrow> (Inr Undefined, s')))"

section \<open>The actions of \<^verbatim>\<open>user.actions.ts\<close>\<close>

definition createUser_body ::
  "CreateUserParams \<Rightarrow> store \<Rightarrow> (js_thrown + user_doc resolved) \<times> store" where
  "createUser_body user s =
     (case connectToDatabase s of
        (Inl e, s1) \<Rightarrow> (Inl e, s1)
      | (Inr u, s1) \<Rightarrow>
          (case User_create user s1 of
             (Inl e, s2) \<Rightarrow> (Inl e, s2)
           | (Inr newUser, s2) \<Rightarrow> (Inr (Value (JSON_roundtrip newUser)), s2)))"

definition createUser ::
  "CreateUserParams \<Rightarrow> store \<Rightarrow> (js_thrown + user_doc resolved) \<times> store" where
  "createUser user s = try_catch (createUser_body user s)"

definition getUserById_body ::
  "string \<Rightarrow> store \<Rightarrow> (js_thrown + user_doc resolved) \<times> store" where
  "getUserById_body userId s =
     (case connectToDatabase s of
        (Inl e, s1) \<Rightarrow> (Inl e, s1)
      | (Inr u, s1) \<Rightarrow>
          (case User_findOne (ByClerkId userId) s1 of
             (Inl e, s2) \<Rightarrow> (Inl e, s2)
           | (Inr None, s2) \<Rightarrow> (Inl (ErrorObject ''User not found''), s2)
           | (Inr (Some user), s2) \<Rightarrow> (Inr (Value (JSON_roundtrip user)), s2)))"

definition getUserById ::
  "string \<Rightarrow> store \<Rightarrow> (js_thrown + user_doc resolved) \<times> store" where
  "getUserById userId s = try_catch (getUserById_body userId s)"

definition updateUser_body ::
  "string \<Rightarrow> UpdateUserParams \<Rightarrow> store \<Rightarrow> (js_thrown + user_doc resolved) \<times> store" where
  "updateUser_body clerk user s =
     (case connectToDatabase s of
        (Inl e, s1) \<Rightarrow> (Inl e, s1)
      | (Inr u, s1) \<Rightarrow>
          (case User_findOneAndUpdate (ByClerkId clerk) (SetFields user) s1 of
             (Inl e, s2) \<Rightarrow> (Inl e, s2)
           | (Inr None, s2) \<Rightarrow> (Inl (ErrorObject ''User update failed''), s2)
           | (Inr (Some updatedUser), s2) \<Rightarrow> (Inr (Value (JSON_roundtrip updatedUser)), s2)))"

definition updateUser ::
  "string \<Rightarrow> UpdateUserParams \<Rightarrow> store \<Rightarrow> (js_thrown + user_doc resolved) \<times> store" where
  "updateUser clerk user s = try_catch (updateUser_body clerk user s)"

definition deleteUser_body ::
  "string \<Rightarrow> store \<Rightarrow> (js_thrown + user_doc resolved) \<times> store" where
  "deleteUser_body clerk s =
     (case connectToDatabase s of
        (Inl e, s1) \<Rightarrow> (Inl e, s1)
      | (Inr u, s1) \<Rightarrow>
          (case User_findOneAndDelete (ByClerkId clerk) s1 of
             (Inl e, s2) \<Rightarrow> (Inl e, s2)
           | (Inr None, s2) \<Rightarrow> (Inl (ErrorObject ''User not found''), s2)
           | (Inr (Some deleteUser), s2) \<Rightarrow>
               (case User_findByIdAndDelete (oid deleteUser) s2 of
                  (Inl e, s3) \<Rightarrow> (Inl e, s3)
                | (Inr deletedUser, s3) \<Rightarrow>
                    (let s4 = revalidatePath ''/'' s3
                     in (case deletedUser of
                           Some d \<Rightarrow> (Inr (Value (JSON_roundtrip d)), s4)
                         | None \<Rightarrow> (Inr Null, s4))))))"

definition deleteUser ::
  "string \<Rightarrow> store \<Rightarrow> (js_thrown + user_doc resolved) \<times> store" where
  "deleteUser clerk s = try_catch (deleteUser_body clerk s)"

text \<open>\<^verbatim>\<open>updateCredits\<close>, after the connection is there: the one request and its check.\<close>

definition updateCredits_query ::
  "object_id \<Rightarrow> int \<Rightarrow> store \<Rightarrow> (js_thrown + user_doc resolved) \<times> store" where
  "updateCredits_query userId creditFee s1 =
     (case User_findOneAndUpdate (ById userId) (IncCreditBalance creditFee) s1 of
        (Inl e, s2) \<Rightarrow> (Inl e, s2)
      | (Inr None, s2) \<Rightarrow> (Inl (ErrorObject ''User credits update failed''), s2)
      | (Inr (Some updateUserCredits), s2) \<Rightarrow>
          (Inr (Value (JSON_roundtrip updateUserCredits)), s2))"

definition updateCredits_body ::
  "object_id \<Rightarrow> int \<Rightarrow> store \<Rightarrow> (js_thrown + user_doc resolved) \<times> store" where
  "updateCredits_body userId creditFee s =
     (case connectToDatabase s of
        (Inl e, s1) \<Rightarrow> (Inl e, s1)
      | (Inr u, s1) \<Rightarrow> updateCredits_query userId creditFee s1)"

definition updateCredits ::
  "object_id \<Rightarrow> int \<Rightarrow> store \<Rightarrow> (js_thrown + user_doc resolved) \<times> store" where
  "updateCredits userId creditFee s = try_catch (updateCredits_body userId creditFee s)"

section \<open>The exposed operations as one interface\<close>

datatype ledger_op =
    CreateUser CreateUserParams
  | GetUserById string
  | UpdateUser string UpdateUserParams
  | DeleteUser string
  | UpdateCredits object_id int

fun exec :: "ledger_op \<Rightarrow> store \<Rightarrow> (js_thrown + user_doc resolved) \<times> store" where
  "exec (CreateUser user) s = createUser user s"
| "exec (GetUserById userId) s = getUserById userId s"
| "exec (UpdateUser clerk user) s = updateUser clerk user s"
| "exec (DeleteUser clerk) s = deleteUser clerk s"
| "exec (UpdateCredits userId creditFee) s = updateCredits userId creditFee s"

text \<open>The record a primary key names, and its balance.\<close>

definition lookup_id :: "store \<Rightarrow> object_id \<Rightarrow> user_doc option" where
  "lookup_id s i = find (matches (ById i)) (docs s)"

definition balance_of :: "store \<Rightarrow> object_id \<Rightarrow> int option" where
  "balance_of s i = map_option creditBalance (lookup_id s i)"

text \<open>
  What the database guarantees of the collection: primary keys are unique, and the keys
  in use were all handed out already.
\<close>

definition wf_store :: "store \<Rightarrow> bool" where
  "wf_store s = (distinct (map oid (docs s)) \<and> list_all (\<lambda>d. oid d < next_oid s) (docs s))"

text \<open>The operations through which a balance is meant to change, or may change.\<close>

fun names_creditBalance :: "ledger_op \<Rightarrow> bool" where
  "names_creditBalance (UpdateCredits userId creditFee) = True"
| "names_creditBalance (UpdateUser clerk user) = (upd_creditBalance user \<noteq> None)"
| "names_creditBalance other = False"

text \<open>
  A later store has kept the balances of an earlier one when every record it holds under
  a primary key the earlier store had already handed out was there before, with the same
  balance (and the later store is again well formed).
\<close>

definition keeps_balances :: "store \<Rightarrow> store \<Rightarrow> bool" where
  "keeps_balances s s' =
     (wf_store s' \<and> next_oid s \<le> next_oid s' \<and>
      (\<forall>i d'. i < next_oid s \<and> lookup_id s' i = Some d' \<longrightarrow>
         (\<exists>d. lookup_id s i = Some d \<and> creditBalance d = creditBalance d')))"

text \<open>
  The states the ledger can be in: it starts with an empty collection (whatever the
  failures the store has in stock), and every exposed operation leads from a reachable
  state to a reachable state.
\<close>

inductive reachable :: "store \<Rightarrow> bool" where
  initial: "docs s = [] \<Longrightarrow> reachable s"
| step: "reachable s \<Longrightarrow> reachable (snd (exec op s))"

section \<open>Two calls of \<^verbatim>\<open>updateCredits\<close> in flight\<close>

text \<open>
  An \<^verbatim>\<open>async\<close> function runs from one \<^verbatim>\<open>await\<close> to the next without
  interruption, and the store serves each request it receives as one step. A call of
  \<^verbatim>\<open>updateCredits\<close> is therefore at one of three points: before
  \<^verbatim>\<open>await connectToDatabase()\<close>, before \<^verbatim>\<open>await User.findOneAndUpdate(...)\<close>,
  or settled with its outcome.
\<close>

datatype call_state =
    AtConnect
  | AtQuery
  | Settled "js_thrown + user_doc resolved"

fun updateCredits_step ::
  "object_id \<Rightarrow> int \<Rightarrow> call_state \<Rightarrow> store \<Rightarrow> call_state \<times> store" where
  "updateCredits_step userId creditFee AtConnect s =
     (case connectToDatabase s of
        (Inl e, s1) \<Rightarrow> (case try_catch (Inl e, s1) of (r, s2) \<Rightarrow> (Settled r, s2))
      | (Inr u, s1) \<Rightarrow> (AtQuery, s1))"
| "updateCredits_step userId creditFee AtQuery s =
     (case try_catch (updateCredits_query userId creditFee s) of (r, s2) \<Rightarrow> (Settled r, s2))"
| "updateCredits_step userId creditFee (Settled r) s = (Settled r, s)"

text \<open>
  Two calls and the store they share. A schedule says, step by step, which of the two
  calls moves next (\<open>True\<close> for the first); a settled call that is scheduled stays as
  it is.
\<close>

fun run_schedule ::
  "bool list \<Rightarrow> object_id \<times> int \<Rightarrow> object_id \<times> int \<Rightarrow>
   call_state \<times> call_state \<times> store \<Rightarrow> call_state \<times> call_state \<times> store" where
  "run_schedule [] a b cfg = cfg"
| "run_schedule (True # sch) a b (pa, pb, s) =
     (case updateCredits_step (fst a) (snd a) pa s of
        (pa', s') \<Rightarrow> run_schedule sch a b (pa', pb, s'))"
| "run_schedule (False # sch) a b (pa, pb, s) =
     (case updateCredits_step (fst b) (snd b) pb s of
        (pb', s') \<Rightarrow> run_schedule sch a b (pa, pb', s'))"

text \<open>How many of its steps a call has behind it (it takes two to settle).\<close>

fun progress :: "call_state \<Rightarrow> nat" where
  "progress AtConnect = 0"
| "progress AtQuery = 1"
| "progress (Settled r) = 2"

text \<open>
  What a call has yet to add to the balance, and whether it is still on its way to
  success (in flight, or settled with a record).
\<close>

fun pending :: "int \<Rightarrow> call_state \<Rightarrow> int" where
  "pending creditFee (Settled r) = 0"
| "pending creditFee p = creditFee"

fun on_course :: "call_state \<Rightarrow> bool" where
  "on_course (Settled (Inr (Value d))) = True"
| "on_course (Settled r) = False"
| "on_course p = True"

section \<open>The Image model\<close>

text \<open>
  The types a path of a Mongoose schema can be declared with (\<open>SchemaArray\<close> is the
  declaration \<^verbatim>\<open>[T]\<close>), and one path: its type, whether it is required, whether it
  has a default (\<^verbatim>\<open>Date.now\<close>) and the model it refers to.
\<close>

datatype schema_type =
    SchemaString
  | SchemaNumber
  | SchemaObject
  | SchemaURL
  | SchemaObjectId
  | SchemaDate
  | SchemaArray schema_type

record schema_path =
  path_type :: schema_type
  required :: bool
  has_default :: bool
  ref :: "string option"

definition path :: "schema_type \<Rightarrow> schema_path" where
  "path t = \<lparr>path_type = t, required = False, has_default = False, ref = None\<rparr>"

text \<open>\<^verbatim>\<open>const ImageSchema = new Schema({ ... })\<close> of \<^verbatim>\<open>image.model.ts\<close>, path by path.\<close>

definition ImageSchema :: "(string \<times> schema_path) list" where
  "ImageSchema =
     [(''title'', (path SchemaString)\<lparr>required := True\<rparr>),
      (''transformationTypes'', (path SchemaString)\<lparr>required := True\<rparr>),
      (''publicId'', (path SchemaString)\<lparr>required := True\<rparr>),
      (''secureURL'', (path SchemaString)\<lparr>required := True\<rparr>),
      (''width'', path SchemaNumber),
      (''height'', path SchemaNumber),
      (''config'', path SchemaObject),
      (''transformationUrl'', path SchemaURL),
      (''aspectRatio'', path SchemaString),
      (''color'', path SchemaString),
      (''prompt'', path SchemaString),
      (''author'', (path SchemaObjectId)\<lparr>ref := Some ''User''\<rparr>),
      (''createdAt'', (path SchemaDate)\<lparr>has_default := True\<rparr>),
      (''updatedAt'', (path SchemaDate)\<lparr>has_default := True\<rparr>)]"

text \<open>
  The TypeScript types of \<^verbatim>\<open>interface ImageModel\<close> in the same file, and its members:
  name, type, and whether the member is optional (\<^verbatim>\<open>?\<close>).
\<close>

datatype ts_type =
    TsString
  | TsNumber
  | TsObject
  | TsURL
  | TsDate
  | TsArray ts_type
  | TsUnion ts_type ts_type
  | TsMembers "(string \<times> ts_type) list"

definition ImageModel :: "(string \<times> ts_type \<times> bool) list" where
  "ImageModel =
     [(''title'', TsString, False),
      (''transformationTypes'', TsArray TsString, False),
      (''publicId'', TsString, False),
      (''secureURL'', TsString, False),
      (''width'', TsNumber, True),
      (''height'', TsNumber, True),
      (''config'', TsObject, True),
      (''transformationUrl'', TsUnion TsString TsURL, True),
      (''aspectRatio'', TsString, True),
      (''color'', TsString, True),
      (''prompt'', TsString, True),
      (''author'',
         TsMembers [(''_id'', TsString), (''firstname'', TsString), (''lastname'', TsString)],
         False),
      (''createdAt'', TsDate, False),
      (''updatedAt'', TsDate, False)]"

text \<open>Whether a path is declared as an array of strings.\<close>

definition array_of_strings :: "schema_path \<Rightarrow> bool" where
  "array_of_strings p = (path_type p = SchemaArray SchemaString)"

section \<open>Concrete inputs\<close>

text \<open>The payload \<^verbatim>\<open>{}\<close>: no field named.\<close>

definition no_fields :: UpdateUserParams where
  "no_fields =
     \<lparr>upd_email = None, upd_username = None, upd_photo = None, upd_firstname = None,
      upd_lastname = None, upd_planId = None, upd_creditBalance = None, upd_stripeId = None,
      upd_stripeCustomerId = None\<rparr>"

definition empty_store :: store where
  "empty_store =
     \<lparr>docs = [], next_oid = 0, cached_conn = False, connections = 0, faults = [],
      calls = [], console = [], revalidated = []\<rparr>"

definition alice :: CreateUserParams where
  "alice =
     \<lparr>clerkId = ''user_alice'', email = ''alice@example.com'', username = ''alice'',
      photo = ''alice.png'', firstname = ''Alice'', lastname = ''Liddell'', planId = 1,
      creditBalance = 10, stripeId = ''si_1'', stripeCustomerId = ''cus_1''\<rparr>"

definition alice_doc :: user_doc where
  "alice_doc = CreateUserParams.extend alice (user_doc.fields 0)"

text \<open>The store after Alice has signed up: connected, one record under the key 0.\<close>

definition alice_store :: store where
  "alice_store =
     \<lparr>docs = [alice_doc], next_oid = 1, cached_conn = True, connections = 1, faults = [],
      calls = [CallCreate alice], console = [], revalidated = []\<rparr>"

text \<open>
  The same store when Alice's balance is 9007199254740992, that is \<open>2 ^ 53\<close> (a
  balance a user can be created with).
\<close>

definition whale_store :: store where
  "whale_store = alice_store\<lparr>docs := [alice_doc\<lparr>creditBalance := 9007199254740992\<rparr>]\<rparr>"

text \<open>
  The same store when its next request is going to be rejected with the plain object
  \<^verbatim>\<open>{ code: 11000 }\<close>, which is neither an \<^verbatim>\<open>Error\<close> nor a string.
\<close>

definition rejecting_store :: store where
  "rejecting_store = alice_store\<lparr>faults := [Some (Thrown (VObj [(''code'', VNum 11000)]))]\<rparr>"

text \<open>Two transformation configurations to merge.\<close>

definition config1 :: js_val where
  "config1 = VObj [(''a'', VNum 1), (''c'', VObj [(''x'', VNum 1)])]"

definition config2 :: js_val where
  "config2 = VObj [(''a'', VNum 2), (''b'', VNum 3), (''c'', VObj [(''x'', VNum 5), (''y'', VNum 6)])]"

section \<open>Sums of numbers\<close>

lemma js_add_safe: "safe_integer (a + b) \<Longrightarrow> js_add a b = a + b"
  by (simp add: js_add_def round_double_def safe_integer_def)



lemma bit_length_le: "n < 2 ^ k \<Longrightarrow> bit_length n \<le> k"
proof (induction k arbitrary: n)
  case 0
  then show ?case by (simp add: bit_length.simps)
next
  case (Suc k)
  then have "n div 2 < 2 ^ k" by simp
  from Suc.IH [OF this] show ?case by (subst bit_length.simps) simp
qed

lemma bit_length_gt: "2 ^ k \<le> n \<Longrightarrow> k < bit_length n"
proof (induction k arbitrary: n)
  case 0
  then show ?case by (subst bit_length.simps) simp
next
  case (Suc k)
  then have "2 ^ k \<le> n div 2" by simp
  moreover have "(0::nat) < 2 ^ Suc k" by simp
  with Suc.prems have "0 < n" by linarith
  ultimately show ?case using Suc.IH [of "n div 2"] by (subst bit_length.simps) simp
qed

lemma bit_length_eq: "2 ^ k \<le> n \<Longrightarrow> n < 2 ^ Suc k \<Longrightarrow> bit_length n = Suc k"
  using bit_length_le [of n "Suc k"] bit_length_gt [of k n] by simp

lemma round_double_54:
  "2 ^ 53 < n \<Longrightarrow> n < 2 ^ 54 \<Longrightarrow> round_double n = round_ties_even n 2"
proof -
  assume a: "2 ^ 53 < n" "n < 2 ^ 54"
  then have "2 ^ 53 \<le> nat \<bar>n\<bar>" "nat \<bar>n\<bar> < 2 ^ Suc 53" by simp_all
  then have "bit_length (nat \<bar>n\<bar>) = Suc 53" by (rule bit_length_eq)
  with a show ?thesis by (simp add: round_double_def)
qed

section \<open>Properties of the store's requests\<close>

lemma next_fault_free:
  "fault_free s \<Longrightarrow> next_fault s = (None, s\<lparr>faults := tl (faults s)\<rparr>)"
  by (cases "faults s") (simp_all add: next_fault_def fault_free_def)

lemma fault_free_tl: "fault_free s \<Longrightarrow> fault_free (s\<lparr>faults := tl (faults s)\<rparr>)"
  by (cases "faults s") (simp_all add: fault_free_def)

lemma fault_free_update_others [simp]:
  "fault_free (s\<lparr>docs := ds\<rparr>) = fault_free s"
  "fault_free (s\<lparr>next_oid := n\<rparr>) = fault_free s"
  "fault_free (s\<lparr>cached_conn := b\<rparr>) = fault_free s"
  "fault_free (s\<lparr>connections := k\<rparr>) = fault_free s"
  "fault_free (s\<lparr>calls := cs\<rparr>) = fault_free s"
  "fault_free (s\<lparr>console := ls\<rparr>) = fault_free s"
  "fault_free (s\<lparr>revalidated := ps\<rparr>) = fault_free s"
  by (simp_all add: fault_free_def)

lemma connect_fault_free:
  "fault_free s \<Longrightarrow> \<exists>s1. connectToDatabase s = (Inr (), s1) \<and> fault_free s1 \<and>
     docs s1 = docs s \<and> calls s1 = calls s \<and> next_oid s1 = next_oid s \<and> console s1 = console s
     \<and> revalidated s1 = revalidated s \<and> cached_conn s1"
  by (auto simp: connectToDatabase_def next_fault_free fault_free_tl)

lemma find_update_first_hit:
  "(\<And>x. P x \<Longrightarrow> P (f x)) \<Longrightarrow> find P (update_first P f xs) = map_option f (find P xs)"
  by (induction xs) auto

lemma find_update_first_other:
  "(\<And>x. Q (f x) = Q x) \<Longrightarrow> (\<And>x. P x \<Longrightarrow> \<not> Q x) \<Longrightarrow> find Q (update_first P f xs) = find Q xs"
  by (induction xs) auto

lemma lookup_after_inc:
  "find (matches (ById i)) (update_first (matches (ById i)) (apply_update (IncCreditBalance n)) xs)
     = map_option (apply_update (IncCreditBalance n)) (find (matches (ById i)) xs)"
  by (rule find_update_first_hit) simp

lemma lookup_other_after_inc:
  "j \<noteq> i \<Longrightarrow>
   find (matches (ById j)) (update_first (matches (ById i)) (apply_update (IncCreditBalance n)) xs)
     = find (matches (ById j)) xs"
  by (rule find_update_first_other) simp_all

lemma update_first_none: "find P xs = None \<Longrightarrow> update_first P f xs = xs"
  by (induction xs) (auto split: if_splits)

lemma findOneAndUpdate_fault_free:
  "fault_free s \<Longrightarrow>
   User_findOneAndUpdate flt upd s =
     (Inr (map_option (apply_update upd) (find (matches flt) (docs s))),
      s\<lparr>calls := calls s @ [CallFindOneAndUpdate flt upd], faults := tl (faults s),
        docs := update_first (matches flt) (apply_update upd) (docs s)\<rparr>)"
  by (simp add: User_findOneAndUpdate_def record_call_def next_fault_free)


lemma handleError_frame:
  "docs (snd (handleError e s)) = docs s"
  "calls (snd (handleError e s)) = calls s"
  "next_oid (snd (handleError e s)) = next_oid s"
  "faults (snd (handleError e s)) = faults s"
  "cached_conn (snd (handleError e s)) = cached_conn s"
  "connections (snd (handleError e s)) = connections s"
  "revalidated (snd (handleError e s)) = revalidated s"
  by (cases "(e, s)" rule: handleError.cases; simp add: console_error_def)+

lemma try_catch_frame:
  "docs (snd (try_catch r)) = docs (snd r)"
  "calls (snd (try_catch r)) = calls (snd r)"
  "next_oid (snd (try_catch r)) = next_oid (snd r)"
  "faults (snd (try_catch r)) = faults (snd r)"
  "cached_conn (snd (try_catch r)) = cached_conn (snd r)"
  "connections (snd (try_catch r)) = connections (snd r)"
  "revalidated (snd (try_catch r)) = revalidated (snd r)"
  using handleError_frame [of "projl (fst r)" "snd r"]
  by (cases r; cases "fst r"; auto simp: try_catch_def split: prod.splits sum.splits)+

lemma try_catch_Inr [simp]: "try_catch (Inr v, s) = (Inr v, s)"
  by (simp add: try_catch_def)

lemma try_catch_ErrorObject [simp]:
  "try_catch (Inl (ErrorObject m), s) = (Inl (ErrorObject (''Error: '' @ m)), console_error m s)"
  by (simp add: try_catch_def)

lemma connect_calls: "calls (snd (connectToDatabase s)) = calls s"
  by (auto simp: connectToDatabase_def next_fault_def split: list.splits option.splits)

lemma updateCredits_calls:
  "calls (snd (updateCredits userId creditFee s)) = calls s \<or>
   calls (snd (updateCredits userId creditFee s)) =
     calls s @ [CallFindOneAndUpdate (ById userId) (IncCreditBalance creditFee)]"
proof -
  obtain r1 s1 where c: "connectToDatabase s = (r1, s1)" by (cases "connectToDatabase s")
  have cs1: "calls s1 = calls s" using connect_calls [of s] c by simp
  show ?thesis
  proof (cases r1)
    case (Inl e)
    then show ?thesis
      using c cs1 by (simp add: updateCredits_def updateCredits_body_def try_catch_frame)
  next
    case (Inr u)
    have "calls (snd (updateCredits_query userId creditFee s1)) =
      calls s1 @ [CallFindOneAndUpdate (ById userId) (IncCreditBalance creditFee)]"
      by (auto simp: updateCredits_query_def User_findOneAndUpdate_def record_call_def
          next_fault_def split: list.splits option.splits)
    then show ?thesis
      using c cs1 Inr by (simp add: updateCredits_def updateCredits_body_def try_catch_frame)
  qed
qed

lemma updateCredits_fault_free:
  assumes "fault_free s"
  shows "calls (snd (updateCredits userId creditFee s)) =
        calls s @ [CallFindOneAndUpdate (ById userId) (IncCreditBalance creditFee)]"
    and "lookup_id s userId = None \<Longrightarrow>
         fst (updateCredits userId creditFee s) =
           Inl (ErrorObject ''Error: User credits update failed'') \<and>
         docs (snd (updateCredits userId creditFee s)) = docs s"
    and "lookup_id s userId = Some d \<Longrightarrow>
         fst (updateCredits userId creditFee s) =
           Inr (Value (d\<lparr>creditBalance := js_add (creditBalance d) creditFee\<rparr>)) \<and>
         lookup_id (snd (updateCredits userId creditFee s)) userId =
           Some (d\<lparr>creditBalance := js_add (creditBalance d) creditFee\<rparr>) \<and>
         (\<forall>j. j \<noteq> userId \<longrightarrow>
            lookup_id (snd (updateCredits userId creditFee s)) j = lookup_id s j)"
proof -
  obtain s1 where c: "connectToDatabase s = (Inr (), s1)" and ff: "fault_free s1"
    and d1: "docs s1 = docs s" and c1: "calls s1 = calls s"
    using connect_fault_free [OF assms] by blast
  note q = findOneAndUpdate_fault_free [OF ff, of "ById userId" "IncCreditBalance creditFee"]
  show "calls (snd (updateCredits userId creditFee s)) =
        calls s @ [CallFindOneAndUpdate (ById userId) (IncCreditBalance creditFee)]"
    using c q c1
    by (cases "find (matches (ById userId)) (docs s1)")
      (simp_all add: updateCredits_def updateCredits_body_def updateCredits_query_def
        console_error_def JSON_roundtrip_def)
  show "fst (updateCredits userId creditFee s) =
           Inl (ErrorObject ''Error: User credits update failed'') \<and>
         docs (snd (updateCredits userId creditFee s)) = docs s"
    if "lookup_id s userId = None"
    using that c q d1
    by (simp add: updateCredits_def updateCredits_body_def updateCredits_query_def
        console_error_def lookup_id_def update_first_none)
  show "fst (updateCredits userId creditFee s) =
           Inr (Value (d\<lparr>creditBalance := js_add (creditBalance d) creditFee\<rparr>)) \<and>
         lookup_id (snd (updateCredits userId creditFee s)) userId =
           Some (d\<lparr>creditBalance := js_add (creditBalance d) creditFee\<rparr>) \<and>
         (\<forall>j. j \<noteq> userId \<longrightarrow>
            lookup_id (snd (updateCredits userId creditFee s)) j = lookup_id s j)"
    if "lookup_id s userId = Some d"
    using that c q d1
    by (simp add: updateCredits_def updateCredits_body_def updateCredits_query_def
        JSON_roundtrip_def lookup_id_def lookup_after_inc lookup_other_after_inc)
qed


section \<open>\<^verbatim>\<open>updateCredits\<close>: one increment inside the store\<close>

text \<open>
  Claim C1, as amended. For every primary key and every \<open>creditFee\<close>, the only request
  \<^verbatim>\<open>updateCredits\<close> ever sends to the User model is one
  \<^verbatim>\<open>findOneAndUpdate({ _id }, { $inc: { creditBalance: creditFee } })\<close>: no read
  precedes it and no write follows it. When the store raises nothing, that request is
  sent; if no record has the key the call fails with the error
  \<^verbatim>\<open>Error: User credits update failed\<close> and the collection is as before; if a record
  has the key, and the prior balance, \<open>creditFee\<close> and their sum are safe integers, the
  call resolves with that record after the adjustment, its balance exactly the prior
  balance plus \<open>creditFee\<close>, the stored record is the same, and no other record changes.
\<close>

theorem updateCredits_single_increment:
  "(calls (snd (updateCredits userId creditFee s)) = calls s \<or>
    calls (snd (updateCredits userId creditFee s)) =
      calls s @ [CallFindOneAndUpdate (ById userId) (IncCreditBalance creditFee)]) \<and>
   (fault_free s \<longrightarrow>
      calls (snd (updateCredits userId creditFee s)) =
        calls s @ [CallFindOneAndUpdate (ById userId) (IncCreditBalance creditFee)] \<and>
      (lookup_id s userId = None \<longrightarrow>
         fst (updateCredits userId creditFee s) =
           Inl (ErrorObject ''Error: User credits update failed'') \<and>
         docs (snd (updateCredits userId creditFee s)) = docs s) \<and>
      (\<forall>d. lookup_id s userId = Some d \<and> safe_integer (creditBalance d) \<and>
           safe_integer creditFee \<and> safe_integer (creditBalance d + creditFee) \<longrightarrow>
         fst (updateCredits userId creditFee s) =
           Inr (Value (d\<lparr>creditBalance := creditBalance d + creditFee\<rparr>)) \<and>
         lookup_id (snd (updateCredits userId creditFee s)) userId =
           Some (d\<lparr>creditBalance := creditBalance d + creditFee\<rparr>) \<and>
         balance_of (snd (updateCredits userId creditFee s)) userId =
           Some (creditBalance d + creditFee) \<and>
         (\<forall>j. j \<noteq> userId \<longrightarrow>
            lookup_id (snd (updateCredits userId creditFee s)) j = lookup_id s j)))"
  using updateCredits_calls [of userId creditFee s]
    updateCredits_fault_free [where s = s and userId = userId and creditFee = creditFee]
  by (auto simp: balance_of_def js_add_safe)

theorem updateCredits_single_increment_witness:
  "fault_free alice_store \<and> lookup_id alice_store 0 = Some alice_doc \<and>
   safe_integer (creditBalance alice_doc) \<and> safe_integer (- 3) \<and>
   safe_integer (creditBalance alice_doc + - 3) \<and>
   lookup_id alice_store 5 = None \<and>
   fst (updateCredits 0 (- 3) alice_store) = Inr (Value (alice_doc\<lparr>creditBalance := 7\<rparr>)) \<and>
   balance_of (snd (updateCredits 0 (- 3) alice_store)) 0 = Some 7 \<and>
   calls (snd (updateCredits 0 (- 3) alice_store)) =
     [CallCreate alice, CallFindOneAndUpdate (ById 0) (IncCreditBalance (- 3))] \<and>
   fst (updateCredits 5 1 alice_store) = Inl (ErrorObject ''Error: User credits update failed'') \<and>
   docs (snd (updateCredits 5 1 alice_store)) = [alice_doc]"
proof -
  have ff: "fault_free alice_store"
    by (simp add: fault_free_def alice_store_def)
  have hit: "lookup_id alice_store 0 = Some alice_doc"
    by (simp add: lookup_id_def alice_store_def alice_doc_def CreateUserParams.extend_def
        user_doc.fields_def)
  have miss: "lookup_id alice_store 5 = None"
    by (simp add: lookup_id_def alice_store_def alice_doc_def CreateUserParams.extend_def
        user_doc.fields_def)
  have bal: "creditBalance alice_doc = 10"
    by (simp add: alice_doc_def alice_def CreateUserParams.extend_def)
  have safe: "safe_integer 10" "safe_integer (- 3)" "safe_integer 7"
    by (simp_all add: safe_integer_def)
  have cs: "calls alice_store = [CallCreate alice]" "docs alice_store = [alice_doc]"
    by (simp_all add: alice_store_def)
  show ?thesis
    using ff hit miss bal cs safe
      updateCredits_single_increment [of 0 "- 3" alice_store]
      updateCredits_single_increment [of 5 1 alice_store]
    by simp
qed

text \<open>
  Claim C1 as stated, for every integer delta, fails: the balance is a JavaScript number.
  Alice has 10 credits; \<^verbatim>\<open>updateCredits\<close> by 9007199254740983 (a safe integer)
  resolves with, and stores, the balance 9007199254740992 where the prior balance plus
  the delta is 9007199254740993, which no double is.
\<close>

theorem updateCredits_rounds_beyond_safe_integers:
  "fault_free alice_store \<and> balance_of alice_store 0 = Some 10 \<and>
   safe_integer 10 \<and> safe_integer 9007199254740983 \<and>
   fst (updateCredits 0 9007199254740983 alice_store) =
     Inr (Value (alice_doc\<lparr>creditBalance := 9007199254740992\<rparr>)) \<and>
   balance_of (snd (updateCredits 0 9007199254740983 alice_store)) 0 =
     Some 9007199254740992 \<and>
   10 + 9007199254740983 = (9007199254740993 :: int)"
proof -
  have ff: "fault_free alice_store"
    by (simp add: fault_free_def alice_store_def)
  have hit: "lookup_id alice_store 0 = Some alice_doc"
    by (simp add: lookup_id_def alice_store_def alice_doc_def CreateUserParams.extend_def
        user_doc.fields_def)
  have bal: "creditBalance alice_doc = 10"
    by (simp add: alice_doc_def alice_def CreateUserParams.extend_def)
  have r: "js_add 10 9007199254740983 = 9007199254740992"
    by (simp add: js_add_def round_double_54 round_ties_even_def)
  from updateCredits_fault_free(3) [OF ff hit, of 9007199254740983]
  show ?thesis
    using ff hit bal r by (simp add: balance_of_def safe_integer_def)
qed

lemma try_catch_Value:
  "try_catch r = (Inr (Value v), s') \<Longrightarrow> r = (Inr (Value v), s')"
  by (cases r; cases "fst r")
     (auto simp: try_catch_def split: prod.splits sum.splits)

lemma find_append_miss:
  "\<forall>x \<in> set xs. \<not> P x \<Longrightarrow> find P (xs @ ys) = find P ys"
  by (induction xs) auto

lemma find_append_hit:
  "find P xs = Some x \<Longrightarrow> find P (xs @ ys) = Some x"
  by (induction xs) (auto split: if_splits)

lemma update_first_split:
  "find P xs = Some d \<Longrightarrow>
   \<exists>pre post. xs = pre @ d # post \<and> update_first P f xs = pre @ f d # post \<and>
     (\<forall>x \<in> set pre. \<not> P x)"
proof (induction xs)
  case Nil
  then show ?case by simp
next
  case (Cons x xs)
  show ?case
  proof (cases "P x")
    case True
    with Cons.prems have "x = d" by simp
    with True show ?thesis by (intro exI [of _ "[]"] exI [of _ xs]) simp
  next
    case False
    with Cons.prems have "find P xs = Some d" by simp
    from Cons.IH [OF this] obtain pre post where
      "xs = pre @ d # post" "update_first P f xs = pre @ f d # post" "\<forall>x \<in> set pre. \<not> P x"
      by blast
    with False show ?thesis
      by (intro exI [of _ "x # pre"] exI [of _ post]) simp
  qed
qed


lemma lookup_clerk_after_set:
  "find (matches (ByClerkId c)) (update_first (matches (ByClerkId c)) (apply_update (SetFields p)) xs)
     = map_option (apply_update (SetFields p)) (find (matches (ByClerkId c)) xs)"
  by (rule find_update_first_hit) (simp add: set_fields_def)

section \<open>\<^verbatim>\<open>updateUser\<close>: the named fields and nothing else\<close>

text \<open>
  Claim C5. For every existing user record (the first record whose \<^verbatim>\<open>clerkId\<close> is
  the one given), when the store raises nothing, \<^verbatim>\<open>updateUser\<close> resolves with the
  record after the update, which is also what the store then holds for that
  \<^verbatim>\<open>clerkId\<close>; each field the payload names has the payload's value, every other
  field (the primary key and \<^verbatim>\<open>clerkId\<close> among them) is as before, and every other
  record of the collection is untouched. A payload naming only \<^verbatim>\<open>username\<close> changes
  only \<^verbatim>\<open>username\<close>.
\<close>

theorem updateUser_replaces_named_fields:
  assumes "fault_free s"
    and "find (matches (ByClerkId clerk)) (docs s) = Some d"
  shows "\<exists>d'. fst (updateUser clerk user s) = Inr (Value d') \<and>
     find (matches (ByClerkId clerk)) (docs (snd (updateUser clerk user s))) = Some d' \<and>
     (\<exists>pre post. docs s = pre @ d # post \<and>
        docs (snd (updateUser clerk user s)) = pre @ d' # post) \<and>
     oid d' = oid d \<and> clerkId d' = clerkId d \<and>
     email d' = (case upd_email user of None \<Rightarrow> email d | Some v \<Rightarrow> v) \<and>
     username d' = (case upd_username user of None \<Rightarrow> username d | Some v \<Rightarrow> v) \<and>
     photo d' = (case upd_photo user of None \<Rightarrow> photo d | Some v \<Rightarrow> v) \<and>
     firstname d' = (case upd_firstname user of None \<Rightarrow> firstname d | Some v \<Rightarrow> v) \<and>
     lastname d' = (case upd_lastname user of None \<Rightarrow> lastname d | Some v \<Rightarrow> v) \<and>
     planId d' = (case upd_planId user of None \<Rightarrow> planId d | Some v \<Rightarrow> v) \<and>
     creditBalance d' =
       (case upd_creditBalance user of None \<Rightarrow> creditBalance d | Some v \<Rightarrow> v) \<and>
     stripeId d' = (case upd_stripeId user of None \<Rightarrow> stripeId d | Some v \<Rightarrow> v) \<and>
     stripeCustomerId d' =
       (case upd_stripeCustomerId user of None \<Rightarrow> stripeCustomerId d | Some v \<Rightarrow> v) \<and>
     (\<forall>x. user = no_fields\<lparr>upd_username := Some x\<rparr> \<longrightarrow> d' = d\<lparr>username := x\<rparr>)"
proof -
  obtain s1 where c: "connectToDatabase s = (Inr (), s1)" and ff: "fault_free s1"
    and d1: "docs s1 = docs s"
    using connect_fault_free [OF assms(1)] by blast
  note q = findOneAndUpdate_fault_free [OF ff, of "ByClerkId clerk" "SetFields user"]
  let ?d' = "set_fields user d"
  have res: "updateUser clerk user s =
    (Inr (Value ?d'),
     s1\<lparr>calls := calls s1 @ [CallFindOneAndUpdate (ByClerkId clerk) (SetFields user)],
        faults := tl (faults s1),
        docs := update_first (matches (ByClerkId clerk)) (apply_update (SetFields user)) (docs s)\<rparr>)"
    using c q d1 assms(2)
    by (simp add: updateUser_def updateUser_body_def JSON_roundtrip_def)
  from update_first_split [OF assms(2), of "apply_update (SetFields user)"]
  obtain pre post where sp: "docs s = pre @ d # post"
    "update_first (matches (ByClerkId clerk)) (apply_update (SetFields user)) (docs s)
       = pre @ ?d' # post"
    by auto
  have f: "find (matches (ByClerkId clerk))
      (update_first (matches (ByClerkId clerk)) (apply_update (SetFields user)) (docs s)) = Some ?d'"
    using assms(2) by (simp add: lookup_clerk_after_set)
  have only: "user = no_fields\<lparr>upd_username := Some x\<rparr> \<Longrightarrow> ?d' = d\<lparr>username := x\<rparr>" for x
    by (simp add: set_fields_def no_fields_def)
  have ex: "\<exists>pre post. docs s = pre @ d # post \<and>
        docs (snd (updateUser clerk user s)) = pre @ ?d' # post"
    unfolding res using sp by (intro exI [of _ pre] exI [of _ post]) simp
  have st: "find (matches (ByClerkId clerk)) (docs (snd (updateUser clerk user s))) = Some ?d'"
    unfolding res using f by simp
  have fld: "oid ?d' = oid d \<and> clerkId ?d' = clerkId d \<and>
     email ?d' = (case upd_email user of None \<Rightarrow> email d | Some v \<Rightarrow> v) \<and>
     username ?d' = (case upd_username user of None \<Rightarrow> username d | Some v \<Rightarrow> v) \<and>
     photo ?d' = (case upd_photo user of None \<Rightarrow> photo d | Some v \<Rightarrow> v) \<and>
     firstname ?d' = (case upd_firstname user of None \<Rightarrow> firstname d | Some v \<Rightarrow> v) \<and>
     lastname ?d' = (case upd_lastname user of None \<Rightarrow> lastname d | Some v \<Rightarrow> v) \<and>
     planId ?d' = (case upd_planId user of None \<Rightarrow> planId d | Some v \<Rightarrow> v) \<and>
     creditBalance ?d' =
       (case upd_creditBalance user of None \<Rightarrow> creditBalance d | Some v \<Rightarrow> v) \<and>
     stripeId ?d' = (case upd_stripeId user of None \<Rightarrow> stripeId d | Some v \<Rightarrow> v) \<and>
     stripeCustomerId ?d' =
       (case upd_stripeCustomerId user of None \<Rightarrow> stripeCustomerId d | Some v \<Rightarrow> v)"
    by (simp add: set_fields_def)
  have r: "fst (updateUser clerk user s) = Inr (Value ?d')"
    unfolding res by simp
  show ?thesis
    using r st ex fld only by (intro exI [of _ ?d']) blast
qed


theorem updateUser_replaces_named_fields_witness:
  "fault_free alice_store \<and>
   find (matches (ByClerkId ''user_alice'')) (docs alice_store) = Some alice_doc \<and>
   fst (updateUser ''user_alice'' (no_fields\<lparr>upd_username := Some ''x''\<rparr>) alice_store) =
     Inr (Value (alice_doc\<lparr>username := ''x''\<rparr>))"
proof -
  have ff: "fault_free alice_store"
    by (simp add: fault_free_def alice_store_def)
  have hit: "find (matches (ByClerkId ''user_alice'')) (docs alice_store) = Some alice_doc"
    by (simp add: alice_store_def alice_doc_def alice_def CreateUserParams.extend_def)
  from updateUser_replaces_named_fields
    [OF ff hit, of "no_fields\<lparr>upd_username := Some ''x''\<rparr>"]
  obtain d' where
    "fst (updateUser ''user_alice'' (no_fields\<lparr>upd_username := Some ''x''\<rparr>) alice_store) =
       Inr (Value d')"
    "d' = alice_doc\<lparr>username := ''x''\<rparr>"
    by blast
  with ff hit show ?thesis by simp
qed

lemma connect_frame:
  "docs (snd (connectToDatabase s)) = docs s"
  "next_oid (snd (connectToDatabase s)) = next_oid s"
  by (auto simp: connectToDatabase_def next_fault_def split: list.splits option.splits)

lemma User_create_Inr:
  assumes "User_create user s = (Inr d, s')"
  shows "d = CreateUserParams.extend user (user_doc.fields (next_oid s))"
    and "docs s' = docs s @ [d]"
    and "next_oid s' = Suc (next_oid s)"
    and "clerkId user \<notin> set (map clerkId (docs s))"
    and "faults s' = tl (faults s)"
  using assms
  by (auto simp: User_create_def record_call_def next_fault_def Let_def
      split: list.splits option.splits if_splits)

lemma createUser_Value:
  assumes "createUser user s = (Inr (Value created), s')"
  shows "created = CreateUserParams.extend user (user_doc.fields (next_oid s))"
    and "docs s' = docs s @ [created]"
    and "next_oid s' = Suc (next_oid s)"
    and "clerkId user \<notin> set (map clerkId (docs s))"
proof -
  from assms have b: "createUser_body user s = (Inr (Value created), s')"
    unfolding createUser_def by (rule try_catch_Value)
  obtain r1 s1 where c: "connectToDatabase s = (r1, s1)" by (cases "connectToDatabase s")
  from connect_frame [of s] c have f1: "docs s1 = docs s" "next_oid s1 = next_oid s" by simp_all
  from b c obtain d where cr: "User_create user s1 = (Inr d, s')" and dd: "created = d"
    by (auto simp: createUser_body_def JSON_roundtrip_def split: sum.splits prod.splits)
  from User_create_Inr [OF cr] f1 dd
  show "created = CreateUserParams.extend user (user_doc.fields (next_oid s))"
    and "docs s' = docs s @ [created]"
    and "next_oid s' = Suc (next_oid s)"
    and "clerkId user \<notin> set (map clerkId (docs s))"
    by simp_all
qed


section \<open>\<^verbatim>\<open>getUserById\<close> after \<^verbatim>\<open>createUser\<close>\<close>


lemma createUser_alice:
  "createUser alice empty_store = (Inr (Value alice_doc), alice_store)"
  by (simp add: createUser_def createUser_body_def connectToDatabase_def next_fault_def
      empty_store_def User_create_def record_call_def alice_store_def alice_doc_def
      JSON_roundtrip_def Let_def)


lemma updateCredits_keeps_fault_free:
  assumes "fault_free s"
  shows "fault_free (snd (updateCredits userId creditFee s))"
proof -
  obtain s1 where c: "connectToDatabase s = (Inr (), s1)" and ff: "fault_free s1"
    using connect_fault_free [OF assms] by blast
  note q = findOneAndUpdate_fault_free [OF ff, of "ById userId" "IncCreditBalance creditFee"]
  show ?thesis
    using c q fault_free_tl [OF ff]
    by (cases "find (matches (ById userId)) (docs s1)")
      (simp_all add: updateCredits_def updateCredits_body_def updateCredits_query_def
        console_error_def fault_free_def)
qed

lemma lookup_fresh:
  assumes "wf_store s"
  shows "find (matches (ById (next_oid s))) (docs s @ [d]) =
    find (matches (ById (next_oid s))) [d]"
proof (rule find_append_miss)
  show "\<forall>x\<in>set (docs s). \<not> matches (ById (next_oid s)) x"
    using assms by (auto simp: wf_store_def list_all_iff)
qed

section \<open>Debits below zero\<close>

text \<open>
  Claim C9. \<^verbatim>\<open>updateCredits\<close> applies the exact integer it is given and enforces no
  floor. After a user is created with \<^verbatim>\<open>creditBalance\<close> 10 (in any store whose
  primary keys are unique, the store raising nothing afterwards), \<^verbatim>\<open>updateCredits\<close>
  of its key by -3 resolves with a balance of exactly 7, and a further
  \<^verbatim>\<open>updateCredits\<close> by -100 resolves as well, with the whole amount applied: the
  balance is -93, in the answer and in the store.
\<close>

theorem updateCredits_no_floor:
  assumes "wf_store s"
    and "createUser user s = (Inr (Value created), s1)"
    and "creditBalance user = 10"
    and "fault_free s1"
  shows "\<exists>d2 s2 d3 s3.
     updateCredits (oid created) (- 3) s1 = (Inr (Value d2), s2) \<and> creditBalance d2 = 7 \<and>
     balance_of s2 (oid created) = Some 7 \<and>
     updateCredits (oid created) (- 100) s2 = (Inr (Value d3), s3) \<and>
     creditBalance d3 = - 93 \<and> balance_of s3 (oid created) = Some (- 93)"
proof -
  note cv = createUser_Value [OF assms(2)]
  have o: "oid created = next_oid s"
    unfolding cv(1) by (simp add: CreateUserParams.extend_def user_doc.fields_def)
  have b: "creditBalance created = 10"
    unfolding cv(1) using assms(3) by (simp add: CreateUserParams.extend_def)
  have l1: "lookup_id s1 (oid created) = Some created"
    unfolding lookup_id_def cv(2) o using lookup_fresh [OF assms(1), of created] o by simp
  let ?r2 = "updateCredits (oid created) (- 3) s1"
  let ?d2 = "created\<lparr>creditBalance := creditBalance created + (- 3)\<rparr>"
  have a2: "js_add (creditBalance created) (- 3) = creditBalance created + (- 3)"
    unfolding b by (rule js_add_safe) (simp add: safe_integer_def)
  from updateCredits_fault_free(3) [OF assms(4) l1, of "- 3"]
  have r2: "fst ?r2 = Inr (Value ?d2)" and l2: "lookup_id (snd ?r2) (oid created) = Some ?d2"
    unfolding a2 by simp_all
  have ff2: "fault_free (snd ?r2)"
    using assms(4) by (rule updateCredits_keeps_fault_free)
  let ?r3 = "updateCredits (oid created) (- 100) (snd ?r2)"
  let ?d3 = "?d2\<lparr>creditBalance := creditBalance ?d2 + (- 100)\<rparr>"
  have a3: "js_add (creditBalance ?d2) (- 100) = creditBalance ?d2 + (- 100)"
    using b by (intro js_add_safe) (simp add: safe_integer_def)
  from updateCredits_fault_free(3) [OF ff2 l2, of "- 100"]
  have r3: "fst ?r3 = Inr (Value ?d3)" and l3: "lookup_id (snd ?r3) (oid created) = Some ?d3"
    unfolding a3 by simp_all
  have e2: "?r2 = (Inr (Value ?d2), snd ?r2)" using r2 by (simp add: prod_eq_iff)
  have e3: "?r3 = (Inr (Value ?d3), snd ?r3)" using r3 by (simp add: prod_eq_iff)
  have "creditBalance ?d2 = 7" "creditBalance ?d3 = - 93" using b by simp_all
  moreover have "balance_of (snd ?r2) (oid created) = Some 7"
    "balance_of (snd ?r3) (oid created) = Some (- 93)"
    using l2 l3 b by (simp_all add: balance_of_def)
  ultimately show ?thesis
    using e2 e3 by blast
qed

lemma wf_empty_store: "wf_store empty_store"
  by (simp add: wf_store_def empty_store_def)

theorem updateCredits_no_floor_witness:
  "wf_store empty_store \<and> createUser alice empty_store = (Inr (Value alice_doc), alice_store) \<and>
   creditBalance alice = 10 \<and> fault_free alice_store \<and>
   (\<exists>d2 s2 d3 s3.
     updateCredits 0 (- 3) alice_store = (Inr (Value d2), s2) \<and> creditBalance d2 = 7 \<and>
     balance_of s2 0 = Some 7 \<and>
     updateCredits 0 (- 100) s2 = (Inr (Value d3), s3) \<and>
     creditBalance d3 = - 93 \<and> balance_of s3 0 = Some (- 93))"
proof -
  have ff: "fault_free alice_store"
    by (simp add: fault_free_def alice_store_def)
  have b: "creditBalance alice = 10"
    by (simp add: alice_def)
  have o: "oid alice_doc = 0"
    by (simp add: alice_doc_def CreateUserParams.extend_def user_doc.fields_def)
  show ?thesis
    using updateCredits_no_floor [OF wf_empty_store createUser_alice b ff]
      wf_empty_store createUser_alice b ff
    unfolding o by simp
qed

lemma keeps_same:
  "wf_store s \<Longrightarrow> docs s' = docs s \<Longrightarrow> next_oid s' = next_oid s \<Longrightarrow> keeps_balances s s'"
  by (simp add: keeps_balances_def wf_store_def lookup_id_def)

lemma keeps_cong:
  "keeps_balances s s' \<Longrightarrow> docs s'' = docs s' \<Longrightarrow> next_oid s'' = next_oid s' \<Longrightarrow>
   keeps_balances s s''"
  by (simp add: keeps_balances_def wf_store_def lookup_id_def)

lemma keeps_wf: "keeps_balances s s' \<Longrightarrow> wf_store s'"
  by (simp add: keeps_balances_def)

lemma keeps_trans:
  assumes "keeps_balances s s'" and "keeps_balances s' s''"
  shows "keeps_balances s s''"
  unfolding keeps_balances_def
proof (intro conjI allI impI)
  show "wf_store s''" using assms(2) by (simp add: keeps_balances_def)
  show "next_oid s \<le> next_oid s''" using assms by (simp add: keeps_balances_def)
next
  fix i d'' assume a: "i < next_oid s \<and> lookup_id s'' i = Some d''"
  with assms(1) have "i < next_oid s'" by (simp add: keeps_balances_def)
  with a assms(2) obtain d' where d': "lookup_id s' i = Some d'"
    "creditBalance d' = creditBalance d''"
    unfolding keeps_balances_def by blast
  with a assms(1) obtain d where "lookup_id s i = Some d" "creditBalance d = creditBalance d'"
    unfolding keeps_balances_def by blast
  with d' show "\<exists>d. lookup_id s i = Some d \<and> creditBalance d = creditBalance d''"
    by simp
qed

lemma map_oid_update_first:
  "(\<And>x. oid (f x) = oid x) \<Longrightarrow> map oid (update_first P f xs) = map oid xs"
  by (induction xs) auto

lemma find_update_first_balance:
  assumes "\<And>x. oid (f x) = oid x" and "\<And>x. creditBalance (f x) = creditBalance x"
    and "find (matches (ById i)) (update_first P f xs) = Some d'"
  shows "\<exists>d. find (matches (ById i)) xs = Some d \<and> creditBalance d = creditBalance d'"
  using assms(3)
proof (induction xs)
  case Nil
  then show ?case by simp
next
  case (Cons x xs)
  then show ?case using assms(1,2) by (auto split: if_splits)
qed

lemma set_delete_first: "set (delete_first P xs) \<subseteq> set xs"
  by (induction xs) auto

lemma distinct_delete_first:
  "distinct (map f xs) \<Longrightarrow> distinct (map f (delete_first P xs))"
proof (induction xs)
  case Nil
  then show ?case by simp
next
  case (Cons x xs)
  then show ?case using set_delete_first [of P xs] by auto
qed

lemma find_unique:
  "distinct (map oid xs) \<Longrightarrow> d \<in> set xs \<Longrightarrow> find (matches (ById (oid d))) xs = Some d"
  by (induction xs) (auto simp: image_iff)

lemma find_delete_first:
  assumes "distinct (map oid xs)"
    and "find (matches (ById i)) (delete_first P xs) = Some d'"
  shows "find (matches (ById i)) xs = Some d'"
proof -
  from assms(2) have "d' \<in> set (delete_first P xs)" and "oid d' = i"
    by (auto simp: find_Some_iff)
  with set_delete_first [of P xs] have "d' \<in> set xs" by auto
  from find_unique [OF assms(1) this] \<open>oid d' = i\<close> show ?thesis by simp
qed

lemma list_all_delete_first: "list_all Q xs \<Longrightarrow> list_all Q (delete_first P xs)"
  using set_delete_first [of P xs] by (auto simp: list_all_iff)

lemma keeps_delete:
  assumes "wf_store s" and "docs s' = delete_first P (docs s)" and "next_oid s' = next_oid s"
  shows "keeps_balances s s'"
  using assms find_delete_first [of "docs s" _ P]
  by (auto simp: keeps_balances_def wf_store_def lookup_id_def distinct_delete_first
      list_all_delete_first)

lemma keeps_update:
  assumes "wf_store s" and "docs s' = update_first P f (docs s)" and "next_oid s' = next_oid s"
    and "\<And>x. oid (f x) = oid x" and "\<And>x. creditBalance (f x) = creditBalance x"
  shows "keeps_balances s s'"
  unfolding keeps_balances_def
proof (intro conjI allI impI)
  have m: "map oid (docs s') = map oid (docs s)"
    unfolding assms(2) using assms(4) by (rule map_oid_update_first)
  have "list_all (\<lambda>d. oid d < next_oid s) (docs s') =
      list_all (\<lambda>n. n < next_oid s) (map oid (docs s'))"
    by (simp add: list_all_iff)
  also have "\<dots> = list_all (\<lambda>d. oid d < next_oid s) (docs s)"
    unfolding m by (simp add: list_all_iff)
  finally show "wf_store s'"
    using assms(1,3) m by (simp add: wf_store_def)
  show "next_oid s \<le> next_oid s'" using assms(3) by simp
next
  fix i d' assume "i < next_oid s \<and> lookup_id s' i = Some d'"
  then have "find (matches (ById i)) (update_first P f (docs s)) = Some d'"
    by (simp add: lookup_id_def assms(2))
  from find_update_first_balance [OF assms(4,5) this]
  show "\<exists>d. lookup_id s i = Some d \<and> creditBalance d = creditBalance d'"
    by (simp add: lookup_id_def)
qed

lemma keeps_append:
  assumes "wf_store s" and "docs s' = docs s @ [d]" and "oid d = next_oid s"
    and "next_oid s' = Suc (next_oid s)"
  shows "keeps_balances s s'"
  unfolding keeps_balances_def
proof (intro conjI allI impI)
  show "wf_store s'"
    using assms by (auto simp: wf_store_def list_all_iff)
  show "next_oid s \<le> next_oid s'" using assms(4) by simp
next
  fix i d' assume a: "i < next_oid s \<and> lookup_id s' i = Some d'"
  then have f: "find (matches (ById i)) (docs s @ [d]) = Some d'"
    by (simp add: lookup_id_def assms(2))
  have "find (matches (ById i)) (docs s) = Some d'"
  proof (cases "find (matches (ById i)) (docs s)")
    case None
    then have "\<forall>x \<in> set (docs s). \<not> matches (ById i) x" by (simp add: find_None_iff)
    from find_append_miss [OF this, of "[d]"] f
    have "find (matches (ById i)) [d] = Some d'" by (simp only:)
    with a assms(3) show ?thesis by (simp split: if_splits)
  next
    case (Some x)
    from find_append_hit [OF this, of "[d]"] f Some show ?thesis by simp
  qed
  then show "\<exists>d. lookup_id s i = Some d \<and> creditBalance d = creditBalance d'"
    by (simp add: lookup_id_def)
qed

lemma next_fault_frame:
  "docs (snd (next_fault s)) = docs s"
  "next_oid (snd (next_fault s)) = next_oid s"
  by (simp_all add: next_fault_def split: list.splits)

lemma keeps_connect: "wf_store s \<Longrightarrow> keeps_balances s (snd (connectToDatabase s))"
  by (rule keeps_same) (simp_all add: connect_frame)

lemma keeps_try_catch: "keeps_balances s (snd r) \<Longrightarrow> keeps_balances s (snd (try_catch r))"
  by (erule keeps_cong) (simp_all add: try_catch_frame)

lemma keeps_User_create: "wf_store s \<Longrightarrow> keeps_balances s (snd (User_create user s))"
proof -
  assume wf: "wf_store s"
  obtain f s1 where n: "next_fault (record_call (CallCreate user) s) = (f, s1)"
    by (cases "next_fault (record_call (CallCreate user) s)")
  from next_fault_frame [of "record_call (CallCreate user) s"] n
  have fr: "docs s1 = docs s" "next_oid s1 = next_oid s"
    by (simp_all add: record_call_def)
  show ?thesis
  proof (cases "f = None \<and> clerkId user \<notin> set (map clerkId (docs s1))")
    case True
    let ?d = "CreateUserParams.extend user (user_doc.fields (next_oid s1))"
    have "snd (User_create user s) = s1\<lparr>docs := docs s1 @ [?d], next_oid := Suc (next_oid s1)\<rparr>"
      using n True by (simp add: User_create_def Let_def)
    moreover have "oid ?d = next_oid s"
      using fr by (simp add: CreateUserParams.extend_def user_doc.fields_def)
    ultimately show ?thesis
      using fr by (intro keeps_append [OF wf, of _ ?d]) simp_all
  next
    case False
    then have "snd (User_create user s) = s1"
      using n by (cases f) (auto simp: User_create_def)
    then show ?thesis using fr wf by (intro keeps_same) simp_all
  qed
qed

lemma keeps_User_findOne: "wf_store s \<Longrightarrow> keeps_balances s (snd (User_findOne flt s))"
proof -
  assume wf: "wf_store s"
  obtain f s1 where n: "next_fault (record_call (CallFindOne flt) s) = (f, s1)"
    by (cases "next_fault (record_call (CallFindOne flt) s)")
  from next_fault_frame [of "record_call (CallFindOne flt) s"] n
  have fr: "docs s1 = docs s" "next_oid s1 = next_oid s"
    by (simp_all add: record_call_def)
  have "snd (User_findOne flt s) = s1"
    using n by (cases f) (simp_all add: User_findOne_def)
  then show ?thesis using fr wf by (intro keeps_same) simp_all
qed

lemma keeps_User_findOneAndUpdate:
  assumes wf: "wf_store s" and nb: "upd_creditBalance user = None"
  shows "keeps_balances s (snd (User_findOneAndUpdate flt (SetFields user) s))"
proof -
  let ?c = "CallFindOneAndUpdate flt (SetFields user)"
  obtain f s1 where n: "next_fault (record_call ?c s) = (f, s1)"
    by (cases "next_fault (record_call ?c s)")
  from next_fault_frame [of "record_call ?c s"] n
  have fr: "docs s1 = docs s" "next_oid s1 = next_oid s"
    by (simp_all add: record_call_def)
  show ?thesis
  proof (cases f)
    case None
    then have "snd (User_findOneAndUpdate flt (SetFields user) s) =
      s1\<lparr>docs := update_first (matches flt) (apply_update (SetFields user)) (docs s1)\<rparr>"
      using n by (simp add: User_findOneAndUpdate_def)
    then show ?thesis
      using fr nb
      by (intro keeps_update [OF wf, of _ "matches flt" "apply_update (SetFields user)"])
        (simp_all add: set_fields_def)
  next
    case (Some e)
    then have "snd (User_findOneAndUpdate flt (SetFields user) s) = s1"
      using n by (simp add: User_findOneAndUpdate_def)
    then show ?thesis using fr wf by (intro keeps_same) simp_all
  qed
qed

lemma keeps_User_findOneAndDelete:
  assumes wf: "wf_store s"
  shows "keeps_balances s (snd (User_findOneAndDelete flt s))"
proof -
  let ?c = "CallFindOneAndDelete flt"
  obtain f s1 where n: "next_fault (record_call ?c s) = (f, s1)"
    by (cases "next_fault (record_call ?c s)")
  from next_fault_frame [of "record_call ?c s"] n
  have fr: "docs s1 = docs s" "next_oid s1 = next_oid s"
    by (simp_all add: record_call_def)
  show ?thesis
  proof (cases f)
    case None
    then have "snd (User_findOneAndDelete flt s) =
      s1\<lparr>docs := delete_first (matches flt) (docs s1)\<rparr>"
      using n by (simp add: User_findOneAndDelete_def)
    then show ?thesis
      using fr by (intro keeps_delete [OF wf, of _ "matches flt"]) simp_all
  next
    case (Some e)
    then have "snd (User_findOneAndDelete flt s) = s1"
      using n by (simp add: User_findOneAndDelete_def)
    then show ?thesis using fr wf by (intro keeps_same) simp_all
  qed
qed

lemma keeps_User_findByIdAndDelete:
  assumes wf: "wf_store s"
  shows "keeps_balances s (snd (User_findByIdAndDelete i s))"
proof -
  let ?c = "CallFindByIdAndDelete i"
  obtain f s1 where n: "next_fault (record_call ?c s) = (f, s1)"
    by (cases "next_fault (record_call ?c s)")
  from next_fault_frame [of "record_call ?c s"] n
  have fr: "docs s1 = docs s" "next_oid s1 = next_oid s"
    by (simp_all add: record_call_def)
  show ?thesis
  proof (cases f)
    case None
    then have "snd (User_findByIdAndDelete i s) =
      s1\<lparr>docs := delete_first (matches (ById i)) (docs s1)\<rparr>"
      using n by (simp add: User_findByIdAndDelete_def)
    then show ?thesis
      using fr by (intro keeps_delete [OF wf, of _ "matches (ById i)"]) simp_all
  next
    case (Some e)
    then have "snd (User_findByIdAndDelete i s) = s1"
      using n by (simp add: User_findByIdAndDelete_def)
    then show ?thesis using fr wf by (intro keeps_same) simp_all
  qed
qed

lemma keeps_createUser: "wf_store s \<Longrightarrow> keeps_balances s (snd (createUser user s))"
proof -
  assume wf: "wf_store s"
  let ?s1 = "snd (connectToDatabase s)"
  note k1 = keeps_connect [OF wf]
  note k2 = keeps_trans [OF k1 keeps_User_create [OF keeps_wf [OF k1], of user]]
  have "snd (createUser_body user s) = ?s1 \<or>
        snd (createUser_body user s) = snd (User_create user ?s1)"
    by (auto simp: createUser_body_def split: prod.splits sum.splits)
  with k1 k2 have "keeps_balances s (snd (createUser_body user s))" by auto
  then show ?thesis unfolding createUser_def by (rule keeps_try_catch)
qed

lemma keeps_getUserById: "wf_store s \<Longrightarrow> keeps_balances s (snd (getUserById userId s))"
proof -
  assume wf: "wf_store s"
  let ?s1 = "snd (connectToDatabase s)"
  note k1 = keeps_connect [OF wf]
  note k2 = keeps_trans [OF k1 keeps_User_findOne [OF keeps_wf [OF k1], of "ByClerkId userId"]]
  have "snd (getUserById_body userId s) = ?s1 \<or>
        snd (getUserById_body userId s) = snd (User_findOne (ByClerkId userId) ?s1)"
    by (auto simp: getUserById_body_def split: prod.splits sum.splits option.splits)
  with k1 k2 have "keeps_balances s (snd (getUserById_body userId s))" by auto
  then show ?thesis unfolding getUserById_def by (rule keeps_try_catch)
qed

lemma keeps_updateUser:
  assumes wf: "wf_store s" and nb: "upd_creditBalance user = None"
  shows "keeps_balances s (snd (updateUser clerk user s))"
proof -
  let ?s1 = "snd (connectToDatabase s)"
  note k1 = keeps_connect [OF wf]
  note k2 = keeps_trans [OF k1
      keeps_User_findOneAndUpdate [OF keeps_wf [OF k1] nb, of "ByClerkId clerk"]]
  have "snd (updateUser_body clerk user s) = ?s1 \<or>
        snd (updateUser_body clerk user s) =
          snd (User_findOneAndUpdate (ByClerkId clerk) (SetFields user) ?s1)"
    by (auto simp: updateUser_body_def split: prod.splits sum.splits option.splits)
  with k1 k2 have "keeps_balances s (snd (updateUser_body clerk user s))" by auto
  then show ?thesis unfolding updateUser_def by (rule keeps_try_catch)
qed

lemma keeps_deleteUser: "wf_store s \<Longrightarrow> keeps_balances s (snd (deleteUser clerk s))"
proof -
  assume wf: "wf_store s"
  let ?s1 = "snd (connectToDatabase s)"
  let ?s2 = "snd (User_findOneAndDelete (ByClerkId clerk) ?s1)"
  note k1 = keeps_connect [OF wf]
  note k2 = keeps_trans [OF k1
      keeps_User_findOneAndDelete [OF keeps_wf [OF k1], of "ByClerkId clerk"]]
  have k3: "keeps_balances s (snd (User_findByIdAndDelete i ?s2))" for i
    by (rule keeps_trans [OF k2 keeps_User_findByIdAndDelete [OF keeps_wf [OF k2]]])
  have k4: "keeps_balances s (revalidatePath p (snd (User_findByIdAndDelete i ?s2)))" for i p
    by (rule keeps_cong [OF k3 [of i]]) (simp_all add: revalidatePath_def)
  have "keeps_balances s (snd (deleteUser_body clerk s))"
  proof (cases "connectToDatabase s")
    case c: (Pair r1 s1)
    show ?thesis
    proof (cases r1)
      case Inl
      with c k1 show ?thesis by (simp add: deleteUser_body_def)
    next
      case (Inr u)
      show ?thesis
      proof (cases "User_findOneAndDelete (ByClerkId clerk) s1")
        case d: (Pair r2 s2)
        have e2: "?s2 = s2" using c d by simp
        show ?thesis
        proof (cases r2)
          case Inl
          with c d Inr k2 show ?thesis by (simp add: deleteUser_body_def)
        next
          case r: (Inr found)
          show ?thesis
          proof (cases found)
            case None
            with c d Inr r k2 show ?thesis by (simp add: deleteUser_body_def)
          next
            case (Some x)
            show ?thesis
              using c d Inr r Some k3 [of "oid x"] k4 [of "''/''" "oid x"] e2
              by (cases "User_findByIdAndDelete (oid x) s2")
                (auto simp: deleteUser_body_def Let_def split: sum.splits option.splits)
          qed
        qed
      qed
    qed
  qed
  then show ?thesis unfolding deleteUser_def by (rule keeps_try_catch)
qed

lemmas action_defs =
  createUser_def createUser_body_def getUserById_def getUserById_body_def
  updateUser_def updateUser_body_def deleteUser_def deleteUser_body_def
  updateCredits_def updateCredits_body_def updateCredits_query_def
  connectToDatabase_def next_fault_def record_call_def User_create_def User_findOne_def
  User_findOneAndUpdate_def User_findOneAndDelete_def User_findByIdAndDelete_def
  revalidatePath_def JSON_roundtrip_def try_catch_def console_error_def Let_def

lemmas example_defs =
  empty_store_def alice_def alice_doc_def alice_store_def no_fields_def
  CreateUserParams.extend_def user_doc.fields_def

lemma wf_update_first:
  assumes "wf_store s" and "docs s' = update_first P f (docs s)" and "next_oid s' = next_oid s"
    and "\<And>x. oid (f x) = oid x"
  shows "wf_store s'"
proof -
  have m: "map oid (docs s') = map oid (docs s)"
    unfolding assms(2) using assms(4) by (rule map_oid_update_first)
  have "list_all (\<lambda>d. oid d < next_oid s) (docs s') =
      list_all (\<lambda>n. n < next_oid s) (map oid (docs s'))"
    by (simp add: list_all_iff)
  also have "\<dots> = list_all (\<lambda>d. oid d < next_oid s) (docs s)"
    unfolding m by (simp add: list_all_iff)
  finally show ?thesis
    using assms(1,3) m by (simp add: wf_store_def)
qed

lemma wf_same: "wf_store s \<Longrightarrow> docs s' = docs s \<Longrightarrow> next_oid s' = next_oid s \<Longrightarrow> wf_store s'"
  by (simp add: wf_store_def)

lemma oid_apply_update: "oid (apply_update upd x) = oid x"
  by (cases upd) (simp_all add: set_fields_def)

lemma wf_User_findOneAndUpdate:
  assumes wf: "wf_store s"
  shows "wf_store (snd (User_findOneAndUpdate flt upd s))"
proof -
  let ?c = "CallFindOneAndUpdate flt upd"
  obtain f s1 where n: "next_fault (record_call ?c s) = (f, s1)"
    by (cases "next_fault (record_call ?c s)")
  from next_fault_frame [of "record_call ?c s"] n
  have fr: "docs s1 = docs s" "next_oid s1 = next_oid s"
    by (simp_all add: record_call_def)
  show ?thesis
  proof (cases f)
    case None
    then have "snd (User_findOneAndUpdate flt upd s) =
      s1\<lparr>docs := update_first (matches flt) (apply_update upd) (docs s1)\<rparr>"
      using n by (simp add: User_findOneAndUpdate_def)
    then show ?thesis
      using fr
      by (intro wf_update_first [OF wf, of _ "matches flt" "apply_update upd"])
        (simp_all add: oid_apply_update)
  next
    case (Some e)
    then have "snd (User_findOneAndUpdate flt upd s) = s1"
      using n by (simp add: User_findOneAndUpdate_def)
    then show ?thesis using fr wf by (intro wf_same [OF wf]) simp_all
  qed
qed

lemma wf_try_catch: "wf_store (snd r) \<Longrightarrow> wf_store (snd (try_catch r))"
  by (erule wf_same) (simp_all add: try_catch_frame)

lemma wf_connect: "wf_store s \<Longrightarrow> wf_store (snd (connectToDatabase s))"
  by (erule wf_same) (simp_all add: connect_frame)

lemma wf_updateUser: "wf_store s \<Longrightarrow> wf_store (snd (updateUser clerk user s))"
proof -
  assume wf: "wf_store s"
  let ?s1 = "snd (connectToDatabase s)"
  note w1 = wf_connect [OF wf]
  note w2 = wf_User_findOneAndUpdate [OF w1, of "ByClerkId clerk" "SetFields user"]
  have "snd (updateUser_body clerk user s) = ?s1 \<or>
        snd (updateUser_body clerk user s) =
          snd (User_findOneAndUpdate (ByClerkId clerk) (SetFields user) ?s1)"
    by (auto simp: updateUser_body_def split: prod.splits sum.splits option.splits)
  with w1 w2 have "wf_store (snd (updateUser_body clerk user s))" by auto
  then show ?thesis unfolding updateUser_def by (rule wf_try_catch)
qed

lemma wf_updateCredits: "wf_store s \<Longrightarrow> wf_store (snd (updateCredits userId creditFee s))"
proof -
  assume wf: "wf_store s"
  let ?s1 = "snd (connectToDatabase s)"
  note w1 = wf_connect [OF wf]
  note w2 = wf_User_findOneAndUpdate [OF w1, of "ById userId" "IncCreditBalance creditFee"]
  have "snd (updateCredits_body userId creditFee s) = ?s1 \<or>
        snd (updateCredits_body userId creditFee s) =
          snd (User_findOneAndUpdate (ById userId) (IncCreditBalance creditFee) ?s1)"
    by (auto simp: updateCredits_body_def updateCredits_query_def
        split: prod.splits sum.splits option.splits)
  with w1 w2 have "wf_store (snd (updateCredits_body userId creditFee s))" by auto
  then show ?thesis unfolding updateCredits_def by (rule wf_try_catch)
qed

lemma wf_exec: "wf_store s \<Longrightarrow> wf_store (snd (exec op s))"
  by (cases op)
    (simp_all add: keeps_wf [OF keeps_createUser] keeps_wf [OF keeps_getUserById]
      keeps_wf [OF keeps_deleteUser] wf_updateUser wf_updateCredits)

lemma reachable_wf: "reachable s \<Longrightarrow> wf_store s"
proof (induction rule: reachable.induct)
  case (initial s)
  then show ?case by (simp add: wf_store_def)
next
  case (step s op)
  then show ?case by (simp add: wf_exec)
qed

lemma keeps_exec:
  "wf_store s \<Longrightarrow> \<not> names_creditBalance op \<Longrightarrow> keeps_balances s (snd (exec op s))"
  by (cases op)
    (simp_all add: keeps_createUser keeps_getUserById keeps_updateUser keeps_deleteUser)

lemma lookup_id_bound: "wf_store s \<Longrightarrow> lookup_id s i = Some d \<Longrightarrow> i < next_oid s"
  by (auto simp: wf_store_def lookup_id_def list_all_iff find_Some_iff)

lemma reachable_alice_store: "reachable alice_store"
proof -
  have "reachable empty_store"
    by (rule reachable.initial) (simp add: empty_store_def)
  from reachable.step [OF this, of "CreateUser alice"] show ?thesis
    by (simp add: createUser_alice)
qed

section \<open>Which operations change a balance\<close>

text \<open>
  Claim C7, as amended. In every reachable state, an exposed operation that is neither
  \<^verbatim>\<open>updateCredits\<close> nor an \<^verbatim>\<open>updateUser\<close> whose payload names
  \<^verbatim>\<open>creditBalance\<close> leaves the balance of every record as it is: a record that exists
  before and after \<^verbatim>\<open>createUser\<close>, \<^verbatim>\<open>getUserById\<close>, \<^verbatim>\<open>deleteUser\<close> or an
  \<^verbatim>\<open>updateUser\<close> of other fields has the same \<^verbatim>\<open>creditBalance\<close> before and
  after, whatever the store raises on the way.
\<close>

theorem creditBalance_changes_only_where_named:
  assumes "reachable s"
    and "\<not> names_creditBalance op"
    and "balance_of s i = Some b"
    and "balance_of (snd (exec op s)) i = Some b'"
  shows "b' = b"
proof -
  have wf: "wf_store s" using assms(1) by (rule reachable_wf)
  from assms(3) obtain d where d: "lookup_id s i = Some d" "creditBalance d = b"
    by (auto simp: balance_of_def)
  from assms(4) obtain d' where d': "lookup_id (snd (exec op s)) i = Some d'"
    "creditBalance d' = b'"
    by (auto simp: balance_of_def)
  have "i < next_oid s" using wf d(1) by (rule lookup_id_bound)
  with keeps_exec [OF wf assms(2)] d'(1)
  obtain d0 where "lookup_id s i = Some d0" "creditBalance d0 = creditBalance d'"
    unfolding keeps_balances_def by blast
  with d d' show ?thesis by simp
qed

theorem creditBalance_changes_only_where_named_witness:
  "reachable alice_store \<and>
   \<not> names_creditBalance (UpdateUser ''user_alice'' (no_fields\<lparr>upd_username := Some ''x''\<rparr>)) \<and>
   balance_of alice_store 0 = Some 10 \<and>
   balance_of
     (snd (exec (UpdateUser ''user_alice'' (no_fields\<lparr>upd_username := Some ''x''\<rparr>)) alice_store))
     0 = Some 10"
proof -
  let ?op = "UpdateUser ''user_alice'' (no_fields\<lparr>upd_username := Some ''x''\<rparr>)"
  have n: "\<not> names_creditBalance ?op"
    by (simp add: no_fields_def)
  have b: "balance_of alice_store 0 = Some 10"
    by (simp add: balance_of_def lookup_id_def example_defs)
  have "\<exists>b'. balance_of (snd (exec ?op alice_store)) 0 = Some b'"
    by (simp add: balance_of_def lookup_id_def action_defs example_defs set_fields_def)
  then obtain b' where b': "balance_of (snd (exec ?op alice_store)) 0 = Some b'" ..
  from creditBalance_changes_only_where_named [OF reachable_alice_store n b b']
  have "b' = 10" .
  with reachable_alice_store n b b' show ?thesis by simp
qed

text \<open>
  Claim C7 as the spec states it fails: \<^verbatim>\<open>interface UpdateUserParams\<close> lists
  \<^verbatim>\<open>creditBalance\<close>, and an \<^verbatim>\<open>updateUser\<close> whose payload names it overwrites the
  balance (here from 10 to 999) without going through \<^verbatim>\<open>updateCredits\<close>.
\<close>

theorem updateUser_overwrites_creditBalance:
  "reachable alice_store \<and> balance_of alice_store 0 = Some 10 \<and>
   balance_of
     (snd (exec (UpdateUser ''user_alice'' (no_fields\<lparr>upd_creditBalance := Some 999\<rparr>))
        alice_store)) 0 = Some 999"
proof -
  have "balance_of alice_store 0 = Some 10"
    by (simp add: balance_of_def lookup_id_def example_defs)
  moreover have "balance_of
     (snd (exec (UpdateUser ''user_alice'' (no_fields\<lparr>upd_creditBalance := Some 999\<rparr>))
        alice_store)) 0 = Some 999"
    by (simp add: balance_of_def lookup_id_def action_defs example_defs set_fields_def)
  ultimately show ?thesis using reachable_alice_store by simp
qed

section \<open>\<^verbatim>\<open>handleError\<close> and what it lets through\<close>

lemma handleError_Error_or_string:
  "handleError (ErrorObject m) s = (Inl (ErrorObject (''Error: '' @ m)), s\<lparr>console := console s @ [m]\<rparr>)"
  "handleError (Thrown (VStr str)) s =
     (Inl (ErrorObject (''Unknown error: '' @ JSON_stringify_string str)),
      s\<lparr>console := console s @ [str]\<rparr>)"
  by (simp_all add: console_error_def)

text \<open>
  Every action rejects when its body throws an \<^verbatim>\<open>Error\<close> or a string, and the message
  is on the console.
\<close>

lemma try_catch_rethrows:
  "try_catch (Inl (ErrorObject m), s) =
     (Inl (ErrorObject (''Error: '' @ m)), s\<lparr>console := console s @ [m]\<rparr>)"
  "try_catch (Inl (Thrown (VStr str)), s) =
     (Inl (ErrorObject (''Unknown error: '' @ JSON_stringify_string str)),
      s\<lparr>console := console s @ [str]\<rparr>)"
  by (simp_all add: try_catch_def console_error_def)

text \<open>A value that is neither an \<^verbatim>\<open>Error\<close> nor a string gets past \<^verbatim>\<open>handleError\<close>.\<close>

lemma try_catch_swallows:
  "\<forall>str. v \<noteq> VStr str \<Longrightarrow> try_catch (Inl (Thrown v), s) = (Inr Undefined, s)"
  by (cases v) (simp_all add: try_catch_def)

text \<open>
  Claim C2 fails on the code. The store is connected and rejects the next request of the
  User model with a value that is neither an \<^verbatim>\<open>Error\<close> nor a string (the object
  \<^verbatim>\<open>{ code: 11000 }\<close>): every one of the five actions then resolves with
  \<^verbatim>\<open>undefined\<close>, the console stays empty and the collection is as it was. Nothing is
  logged and nothing is thrown again, since \<^verbatim>\<open>handleError\<close> has no branch for such
  a value.
\<close>

theorem actions_swallow_non_Error_failure:
  "fst (exec op rejecting_store) = Inr Undefined \<and>
   console (snd (exec op rejecting_store)) = [] \<and>
   docs (snd (exec op rejecting_store)) = [alice_doc] \<and>
   faults (snd (exec op rejecting_store)) = []"
  by (cases op) (simp_all add: action_defs rejecting_store_def alice_store_def)

section \<open>\<^verbatim>\<open>deleteUser\<close>\<close>

lemma find_delete_first_same:
  assumes "distinct (map oid xs)" and "find P xs = Some d"
  shows "find (matches (ById (oid d))) (delete_first P xs) = None"
  using assms
proof (induction xs)
  case Nil
  then show ?case by simp
next
  case (Cons x xs)
  show ?case
  proof (cases "P x")
    case True
    with Cons.prems have "x = d" "oid d \<notin> set (map oid xs)" by auto
    have "\<forall>y \<in> set xs. \<not> matches (ById (oid d)) y"
    proof
      fix y assume "y \<in> set xs"
      then have "oid y \<in> set (map oid xs)" by simp
      with \<open>oid d \<notin> set (map oid xs)\<close> have "oid y \<noteq> oid d" by metis
      then show "\<not> matches (ById (oid d)) y" by simp
    qed
    with True \<open>x = d\<close> show ?thesis by (simp add: find_None_iff)
  next
    case False
    with Cons.prems have f: "find P xs = Some d" and "distinct (map oid xs)" by auto
    then have "d \<in> set xs" by (auto simp: find_Some_iff)
    with Cons.prems(1) have "oid x \<noteq> oid d" by auto
    with False Cons.IH [OF \<open>distinct (map oid xs)\<close> f] show ?thesis by simp
  qed
qed

lemma findOneAndDelete_fault_free:
  "fault_free s \<Longrightarrow>
   User_findOneAndDelete flt s =
     (Inr (find (matches flt) (docs s)),
      s\<lparr>calls := calls s @ [CallFindOneAndDelete flt], faults := tl (faults s),
        docs := delete_first (matches flt) (docs s)\<rparr>)"
  by (simp add: User_findOneAndDelete_def record_call_def next_fault_free)

lemma findByIdAndDelete_fault_free:
  "fault_free s \<Longrightarrow>
   User_findByIdAndDelete i s =
     (Inr (find (matches (ById i)) (docs s)),
      s\<lparr>calls := calls s @ [CallFindByIdAndDelete i], faults := tl (faults s),
        docs := delete_first (matches (ById i)) (docs s)\<rparr>)"
  by (simp add: User_findByIdAndDelete_def record_call_def next_fault_free)

lemma delete_first_none: "find P xs = None \<Longrightarrow> delete_first P xs = xs"
  by (induction xs) (auto split: if_splits)

text \<open>
  With unique primary keys and a store that raises nothing, \<^verbatim>\<open>deleteUser\<close> of an
  existing user resolves with \<^verbatim>\<open>null\<close>: \<^verbatim>\<open>findOneAndDelete\<close> has removed the
  record before \<^verbatim>\<open>findByIdAndDelete\<close> looks for its key.
\<close>

lemma deleteUser_existing_resolves_null:
  assumes "wf_store s" and "fault_free s"
    and "find (matches (ByClerkId clerk)) (docs s) = Some d"
  shows "fst (deleteUser clerk s) = Inr Null"
    and "docs (snd (deleteUser clerk s)) = delete_first (matches (ByClerkId clerk)) (docs s)"
proof -
  obtain s1 where c: "connectToDatabase s = (Inr (), s1)" and ff: "fault_free s1"
    and d1: "docs s1 = docs s"
    using connect_fault_free [OF assms(2)] by blast
  let ?s2 = "s1\<lparr>calls := calls s1 @ [CallFindOneAndDelete (ByClerkId clerk)],
        faults := tl (faults s1), docs := delete_first (matches (ByClerkId clerk)) (docs s1)\<rparr>"
  have q1: "User_findOneAndDelete (ByClerkId clerk) s1 = (Inr (Some d), ?s2)"
    using findOneAndDelete_fault_free [OF ff, of "ByClerkId clerk"] assms(3) d1 by simp
  have ff2: "fault_free ?s2"
    using fault_free_tl [OF ff] by (simp add: fault_free_def)
  have gone: "find (matches (ById (oid d))) (docs ?s2) = None"
    using find_delete_first_same [of "docs s" "matches (ByClerkId clerk)" d] assms(1,3) d1
    by (simp add: wf_store_def)
  have q2: "User_findByIdAndDelete (oid d) ?s2 =
      (Inr None, ?s2\<lparr>calls := calls ?s2 @ [CallFindByIdAndDelete (oid d)],
        faults := tl (faults ?s2)\<rparr>)"
    unfolding findByIdAndDelete_fault_free [OF ff2, of "oid d"] gone
    using delete_first_none [OF gone] by simp
  show "fst (deleteUser clerk s) = Inr Null"
    unfolding deleteUser_def deleteUser_body_def c
    by (simp add: q1 q2 Let_def)
  show "docs (snd (deleteUser clerk s)) = delete_first (matches (ByClerkId clerk)) (docs s)"
    unfolding deleteUser_def deleteUser_body_def c
    by (simp add: q1 q2 Let_def revalidatePath_def) (simp add: d1)
qed

text \<open>
  Claim C3 fails on the code. The first half holds: \<^verbatim>\<open>deleteUser\<close> of a
  \<^verbatim>\<open>clerkId\<close> nobody has fails with \<^verbatim>\<open>Error: User not found\<close>. For the existing
  user Alice, \<^verbatim>\<open>deleteUser\<close> removes her record with \<^verbatim>\<open>findOneAndDelete\<close>, looks
  for her primary key with \<^verbatim>\<open>findByIdAndDelete\<close>, finds nothing and resolves with
  \<^verbatim>\<open>null\<close>, not with the deleted record.
\<close>

theorem deleteUser_existing_user_yields_null:
  "find (matches (ByClerkId ''user_alice'')) (docs alice_store) = Some alice_doc \<and>
   fst (deleteUser ''user_alice'' alice_store) = Inr Null \<and>
   docs (snd (deleteUser ''user_alice'' alice_store)) = [] \<and>
   calls (snd (deleteUser ''user_alice'' alice_store)) =
     [CallCreate alice, CallFindOneAndDelete (ByClerkId ''user_alice''),
      CallFindByIdAndDelete 0] \<and>
   revalidated (snd (deleteUser ''user_alice'' alice_store)) = [''/''] \<and>
   fst (deleteUser ''user_bob'' alice_store) = Inl (ErrorObject ''Error: User not found'')"
  by (simp add: action_defs example_defs)

section \<open>Concurrent calls of \<^verbatim>\<open>updateCredits\<close>\<close>

text \<open>Run on its own, a call takes its two steps and settles as \<^verbatim>\<open>updateCredits\<close> does.\<close>

lemma updateCredits_is_two_steps:
  "run_schedule [True, True] (userId, creditFee) b (AtConnect, pb, s) =
     (Settled (fst (updateCredits userId creditFee s)), pb, snd (updateCredits userId creditFee s))"
proof (cases "connectToDatabase s")
  case (Pair r1 s1)
  show ?thesis
  proof (cases r1)
    case (Inl e)
    with Pair show ?thesis
      by (simp add: updateCredits_def updateCredits_body_def split: prod.splits)
  next
    case (Inr u)
    with Pair show ?thesis
      by (simp add: updateCredits_def updateCredits_body_def split: prod.splits)
  qed
qed

lemma updateCredits_query_fault_free:
  assumes "fault_free s" and "lookup_id s userId = Some d"
  shows "\<exists>s'. updateCredits_query userId creditFee s =
           (Inr (Value (d\<lparr>creditBalance := js_add (creditBalance d) creditFee\<rparr>)), s') \<and>
         fault_free s' \<and>
         lookup_id s' userId = Some (d\<lparr>creditBalance := js_add (creditBalance d) creditFee\<rparr>)"
  using assms findOneAndUpdate_fault_free [OF assms(1), of "ById userId" "IncCreditBalance creditFee"]
    fault_free_tl [OF assms(1)]
  by (simp add: updateCredits_query_def lookup_id_def JSON_roundtrip_def lookup_after_inc
      fault_free_def)

lemma updateCredits_step_invariant:
  assumes "fault_free s" and "balance_of s userId = Some b" and "on_course p"
    and "updateCredits_step userId creditFee p s = (p', s')"
    and "p = AtQuery \<Longrightarrow> safe_integer (b + creditFee)"
  shows "fault_free s' \<and> on_course p' \<and>
         balance_of s' userId = Some (b + pending creditFee p - pending creditFee p') \<and>
         progress p' = min 2 (Suc (progress p))"
proof (cases p)
  case AtConnect
  obtain s1 where c: "connectToDatabase s = (Inr (), s1)" and ff: "fault_free s1"
    and d1: "docs s1 = docs s"
    using connect_fault_free [OF assms(1)] by blast
  with assms(2,4) AtConnect show ?thesis
    by (auto simp: balance_of_def lookup_id_def)
next
  case AtQuery
  from assms(2) obtain d where d: "lookup_id s userId = Some d" "creditBalance d = b"
    by (auto simp: balance_of_def)
  have e: "js_add (creditBalance d) creditFee = b + creditFee"
    unfolding d(2) using assms(5) [OF AtQuery] by (rule js_add_safe)
  from updateCredits_query_fault_free [OF assms(1) d(1), of creditFee]
  obtain s2 where "updateCredits_query userId creditFee s =
           (Inr (Value (d\<lparr>creditBalance := b + creditFee\<rparr>)), s2)"
    "fault_free s2"
    "lookup_id s2 userId = Some (d\<lparr>creditBalance := b + creditFee\<rparr>)"
    unfolding e by blast
  with assms(4) AtQuery show ?thesis
    by (auto simp: balance_of_def)
next
  case (Settled r)
  with assms(1-4) show ?thesis by auto
qed

lemma progress_le_2: "progress p \<le> 2"
  by (cases p) simp_all

lemma pending_cases: "pending creditFee p = creditFee \<or> pending creditFee p = 0"
  by (cases p) simp_all

lemma pending_AtQuery: "pending creditFee AtQuery = creditFee"
  by simp

text \<open>
  The balance at every moment: the initial one plus the deltas of the calls that have
  made their request. All the sums that can come up are assumed safe integers.
\<close>

lemma run_schedule_invariant:
  assumes "fault_free s"
    and "balance_of s userId = Some (b0 + (fa - pending fa pa) + (fb - pending fb pb))"
    and "on_course pa" and "on_course pb"
    and "safe_integer (b0 + fa)" and "safe_integer (b0 + fb)" and "safe_integer (b0 + fa + fb)"
    and "run_schedule sch (userId, fa) (userId, fb) (pa, pb, s) = (pa', pb', s')"
  shows "on_course pa' \<and> on_course pb' \<and>
         balance_of s' userId = Some (b0 + (fa - pending fa pa') + (fb - pending fb pb')) \<and>
         progress pa' = min 2 (progress pa + count_list sch True) \<and>
         progress pb' = min 2 (progress pb + count_list sch False)"
  using assms(1-4,8)
proof (induction sch arbitrary: pa pb s)
  case Nil
  then show ?case using progress_le_2 [of pa'] progress_le_2 [of pb'] by auto
next
  case (Cons t sch)
  let ?b = "b0 + (fa - pending fa pa) + (fb - pending fb pb)"
  show ?case
  proof (cases t)
    case True
    obtain p1 s1 where st: "updateCredits_step userId fa pa s = (p1, s1)"
      by (cases "updateCredits_step userId fa pa s")
    have safe: "safe_integer (?b + fa)" if "pa = AtQuery"
      using that pending_cases [of fb pb] assms(5,7) by (auto simp: add.commute add.left_commute)
    from updateCredits_step_invariant [OF Cons.prems(1,2,3) st safe]
    have i: "fault_free s1" "on_course p1"
      "balance_of s1 userId = Some (?b + pending fa pa - pending fa p1)"
      "progress p1 = min 2 (Suc (progress pa))"
      by simp_all
    have b1: "balance_of s1 userId = Some (b0 + (fa - pending fa p1) + (fb - pending fb pb))"
      using i(3) by simp
    from Cons.prems(5) True st
    have r: "run_schedule sch (userId, fa) (userId, fb) (p1, pb, s1) = (pa', pb', s')"
      by simp
    from Cons.IH [OF i(1) b1 i(2) Cons.prems(4) r] i(4) True
    show ?thesis by auto
  next
    case False
    obtain p1 s1 where st: "updateCredits_step userId fb pb s = (p1, s1)"
      by (cases "updateCredits_step userId fb pb s")
    have safe: "safe_integer (?b + fb)" if "pb = AtQuery"
      using that pending_cases [of fa pa] assms(6,7) by (auto simp: add.commute add.left_commute)
    from updateCredits_step_invariant [OF Cons.prems(1,2,4) st safe]
    have i: "fault_free s1" "on_course p1"
      "balance_of s1 userId = Some (?b + pending fb pb - pending fb p1)"
      "progress p1 = min 2 (Suc (progress pb))"
      by simp_all
    have b1: "balance_of s1 userId = Some (b0 + (fa - pending fa pa) + (fb - pending fb p1))"
      using i(3) by simp
    from Cons.prems(5) False st
    have r: "run_schedule sch (userId, fa) (userId, fb) (pa, p1, s1) = (pa', pb', s')"
      by simp
    from Cons.IH [OF i(1) b1 Cons.prems(3) i(2) r] i(4) False
    show ?thesis by auto
  qed
qed

lemma settled_on_course:
  "on_course p \<Longrightarrow> progress p = 2 \<Longrightarrow> \<exists>d. p = Settled (Inr (Value d))"
  by (cases p rule: on_course.cases) simp_all

text \<open>
  Claim C4, as amended. Two calls \<^verbatim>\<open>updateCredits(u, delta1)\<close> and
  \<^verbatim>\<open>updateCredits(u, delta2)\<close> for the same existing user run concurrently: their
  steps are interleaved in any order (any schedule that lets each call take its two
  steps), the store raising nothing. When the initial balance, the two deltas and the
  sums of the initial balance with either delta and with both are safe integers, both
  calls settle with a record and the user's balance ends as exactly the initial balance
  plus \<open>delta1\<close> plus \<open>delta2\<close>, negative deltas included: no update is lost.
\<close>

theorem concurrent_updateCredits_both_apply:
  assumes "balance_of s u = Some initial"
    and "fault_free s"
    and "2 \<le> count_list sch True"
    and "2 \<le> count_list sch False"
    and "safe_integer initial" and "safe_integer delta1" and "safe_integer delta2"
    and "safe_integer (initial + delta1)" and "safe_integer (initial + delta2)"
    and "safe_integer (initial + delta1 + delta2)"
  shows "\<exists>da db s'.
     run_schedule sch (u, delta1) (u, delta2) (AtConnect, AtConnect, s) =
       (Settled (Inr (Value da)), Settled (Inr (Value db)), s') \<and>
     balance_of s' u = Some (initial + delta1 + delta2)"
proof -
  obtain pa' pb' s' where r:
    "run_schedule sch (u, delta1) (u, delta2) (AtConnect, AtConnect, s) = (pa', pb', s')"
    by (cases "run_schedule sch (u, delta1) (u, delta2) (AtConnect, AtConnect, s)")
  have b: "balance_of s u =
      Some (initial + (delta1 - pending delta1 AtConnect) + (delta2 - pending delta2 AtConnect))"
    using assms(1) by simp
  from run_schedule_invariant [OF assms(2) b _ _ assms(8,9,10) r]
  have i: "on_course pa'" "on_course pb'"
    "balance_of s' u =
       Some (initial + (delta1 - pending delta1 pa') + (delta2 - pending delta2 pb'))"
    "progress pa' = min 2 (count_list sch True)" "progress pb' = min 2 (count_list sch False)"
    by simp_all
  from i(4,5) assms(3,4) have "progress pa' = 2" "progress pb' = 2" by simp_all
  with i(1,2) obtain da db where
    "pa' = Settled (Inr (Value da))" "pb' = Settled (Inr (Value db))"
    using settled_on_course by blast
  with r i(3) show ?thesis by simp
qed

theorem concurrent_updateCredits_both_apply_witness:
  "balance_of alice_store 0 = Some 10 \<and> fault_free alice_store \<and>
   2 \<le> count_list [True, False, False, True] True \<and>
   2 \<le> count_list [True, False, False, True] False \<and>
   safe_integer 10 \<and> safe_integer (- 5) \<and> safe_integer (10 + - 5) \<and>
   safe_integer (10 + - 5 + - 5) \<and>
   (\<exists>da db s'.
     run_schedule [True, False, False, True] (0, - 5) (0, - 5) (AtConnect, AtConnect, alice_store) =
       (Settled (Inr (Value da)), Settled (Inr (Value db)), s') \<and>
     balance_of s' 0 = Some 0)"
proof -
  have b: "balance_of alice_store 0 = Some 10"
    by (simp add: balance_of_def lookup_id_def example_defs)
  have ff: "fault_free alice_store"
    by (simp add: fault_free_def alice_store_def)
  have c: "2 \<le> count_list [True, False, False, True] True"
    "2 \<le> count_list [True, False, False, True] False"
    by simp_all
  have safe: "safe_integer 10" "safe_integer (- 5)" "safe_integer (10 + - 5)"
    "safe_integer (10 + - 5 + - 5)"
    by (simp_all add: safe_integer_def)
  from concurrent_updateCredits_both_apply
    [OF b ff c safe(1) safe(2) safe(2) safe(3) safe(3) safe(4)] b ff c safe
  show ?thesis by simp
qed

text \<open>
  Claim C4 as stated, for every initial balance and all integers, fails beyond the safe
  integers. Alice's balance is 9007199254740992 (\<open>2 ^ 53\<close>); two concurrent
  \<^verbatim>\<open>updateCredits\<close> by 1 both settle, and the balance is still 9007199254740992, not
  9007199254740994: each increment is rounded away.
\<close>

theorem concurrent_updateCredits_rounded_away:
  "fault_free whale_store \<and> balance_of whale_store 0 = Some 9007199254740992 \<and>
   2 \<le> count_list [True, False, True, False] True \<and>
   2 \<le> count_list [True, False, True, False] False \<and>
   run_schedule [True, False, True, False] (0, 1) (0, 1) (AtConnect, AtConnect, whale_store) =
     (Settled (Inr (Value (alice_doc\<lparr>creditBalance := 9007199254740992\<rparr>))),
      Settled (Inr (Value (alice_doc\<lparr>creditBalance := 9007199254740992\<rparr>))),
      whale_store\<lparr>calls :=
        [CallCreate alice,
         CallFindOneAndUpdate (ById 0) (IncCreditBalance 1),
         CallFindOneAndUpdate (ById 0) (IncCreditBalance 1)]\<rparr>) \<and>
   balance_of
     (whale_store\<lparr>calls :=
        [CallCreate alice,
         CallFindOneAndUpdate (ById 0) (IncCreditBalance 1),
         CallFindOneAndUpdate (ById 0) (IncCreditBalance 1)]\<rparr>) 0 = Some 9007199254740992 \<and>
   9007199254740992 + 1 + 1 = (9007199254740994 :: int)"
proof -
  have r: "js_add 9007199254740992 1 = 9007199254740992"
    by (simp add: js_add_def round_double_54 round_ties_even_def)
  show ?thesis
    by (simp add: action_defs example_defs whale_store_def balance_of_def lookup_id_def
        fault_free_def r)
qed

section \<open>The precedence of \<^verbatim>\<open>deepMergeObjects\<close>\<close>

lemma digit_char_code: "of_char (digit_char n) = (48 + n mod 10 :: nat)"
proof -
  have "n mod 10 < 10" by simp
  then have "48 + n mod 10 < 256" by linarith
  then have "(48 + n mod 10) mod 256 = 48 + n mod 10" by (rule mod_less)
  then show ?thesis
    by (simp add: digit_char_def)
qed

lemma digit_char_inj: "digit_char n = digit_char m \<Longrightarrow> n mod 10 = m mod 10"
proof -
  assume "digit_char n = digit_char m"
  then have "(of_char (digit_char n) :: nat) = of_char (digit_char m)" by (rule arg_cong)
  then show ?thesis unfolding digit_char_code by linarith
qed

lemma string_of_nat_last: "last (string_of_nat n) = digit_char n"
  by (subst string_of_nat.simps) simp

lemma string_of_nat_not_Nil: "string_of_nat n \<noteq> []"
  by (subst string_of_nat.simps) simp

lemma string_of_nat_butlast:
  "butlast (string_of_nat n) = (if n < 10 then [] else string_of_nat (n div 10))"
  by (subst string_of_nat.simps) simp


lemma string_of_nat_inj: "string_of_nat n = string_of_nat m \<Longrightarrow> n = m"
proof (induction n arbitrary: m rule: string_of_nat.induct)
  case (1 n)
  have "digit_char n = digit_char m"
    using "1.prems" string_of_nat_last [of n] string_of_nat_last [of m] by simp
  then have l: "n mod 10 = m mod 10" by (rule digit_char_inj)
  from "1.prems" have b: "butlast (string_of_nat n) = butlast (string_of_nat m)" by simp
  show ?case
  proof (cases "n < 10")
    case True
    have "m < 10"
    proof (rule ccontr)
      assume "\<not> m < 10"
      with b True have "string_of_nat (m div 10) = []" by (simp add: string_of_nat_butlast)
      with string_of_nat_not_Nil show False by blast
    qed
    with True l show ?thesis by simp
  next
    case False
    have m: "\<not> m < 10"
    proof
      assume "m < 10"
      with b False have "string_of_nat (n div 10) = []" by (simp add: string_of_nat_butlast)
      with string_of_nat_not_Nil show False by blast
    qed
    with False b have "string_of_nat (n div 10) = string_of_nat (m div 10)"
      by (simp add: string_of_nat_butlast)
    from "1.IH" [OF False this] have "n div 10 = m div 10" .
    with l show ?thesis by (metis div_mult_mod_eq)
  qed
qed


lemma index_props_keys:
  "k \<in> set (map fst (index_props i xs)) \<Longrightarrow> \<exists>j\<ge>i. k = string_of_nat j"
proof (induction xs arbitrary: i)
  case Nil
  then show ?case by simp
next
  case (Cons x xs)
  show ?case
  proof (cases "k = string_of_nat i")
    case True
    then show ?thesis by blast
  next
    case False
    with Cons.prems have "k \<in> set (map fst (index_props (Suc i) xs))" by simp
    from Cons.IH [OF this] obtain j where "Suc i \<le> j" "k = string_of_nat j" by blast
    then have "i \<le> j \<and> k = string_of_nat j" by simp
    then show ?thesis by blast
  qed
qed

lemma index_props_distinct: "distinct (map fst (index_props i xs))"
proof (induction xs arbitrary: i)
  case Nil
  then show ?case by simp
next
  case (Cons x xs)
  have "string_of_nat i \<notin> set (map fst (index_props (Suc i) xs))"
  proof
    assume "string_of_nat i \<in> set (map fst (index_props (Suc i) xs))"
    from index_props_keys [OF this] obtain j where "Suc i \<le> j" "string_of_nat i = string_of_nat j"
      by blast
    with string_of_nat_inj [of i j] show False by simp
  qed
  with Cons.IH [of "Suc i"] show ?case by simp
qed

text \<open>The keys of an array and of a string are distinct, as those of every object are.\<close>

lemma own_props_distinct:
  "distinct (map fst (own_props (VArr xs)))" "distinct (map fst (own_props (VStr str)))"
  by (simp_all add: index_props_distinct)

lemma index_props_values: "kv \<in> set (index_props i xs) \<Longrightarrow> snd kv \<in> set xs"
  by (induction xs arbitrary: i) auto

lemma own_props_free:
  assumes "hasOwnProperty_free obj1" and "kv \<in> set (own_props obj1)"
  shows "hasOwnProperty_free (snd kv)"
proof (cases obj1)
  case (VObj kvs)
  with assms show ?thesis by simp
next
  case (VArr xs)
  with assms index_props_values [of kv 0 xs] show ?thesis by simp
next
  case (VStr str)
  with assms index_props_values [of kv 0 "map (\<lambda>c. VStr [c]) str"] show ?thesis by auto
qed (use assms in simp_all)

lemma free_not_shadows: "hasOwnProperty_free obj1 \<Longrightarrow> \<not> shadows_hasOwnProperty obj1"
  by (cases obj1) simp_all

lemma deepMergeObjects_returns_aux:
  shows "hasOwnProperty_free obj1 \<Longrightarrow> \<exists>r. deepMergeObjects obj1 obj2 = Inr r"
    and "\<not> shadows_hasOwnProperty obj1' \<Longrightarrow> \<forall>kv \<in> set kvs. hasOwnProperty_free (snd kv) \<Longrightarrow>
         \<exists>r. merge_own_keys obj1' kvs obj2' out = Inr r"
proof (induction obj1 obj2 and obj1' kvs obj2' out rule: deepMergeObjects_merge_own_keys.induct)
  case (1 obj1 obj2)
  show ?case
  proof (cases "obj2 = VNull \<or> obj2 = VUndefined")
    case True
    then show ?thesis by auto
  next
    case False
    have "\<not> shadows_hasOwnProperty obj1"
      using "1.prems" by (rule free_not_shadows)
    moreover have "\<forall>kv \<in> set (own_props obj1). hasOwnProperty_free (snd kv)"
      using "1.prems" own_props_free by blast
    ultimately obtain r where
      "merge_own_keys obj1 (own_props obj1) obj2 (own_props obj2) = Inr r"
      using "1.IH" False by blast
    with False show ?thesis by simp
  qed
next
  case (2 obj1 obj2 out)
  then show ?case by simp
next
  case (3 obj1 key v rest obj2 out)
  from "3.prems" have ns: "\<not> shadows_hasOwnProperty obj1" and fv: "hasOwnProperty_free v"
    and fr: "\<forall>kv \<in> set rest. hasOwnProperty_free (snd kv)"
    by simp_all
  show ?case
  proof (cases "truthy v \<and> typeof v = ''object'' \<and>
            truthy (get_prop obj2 key) \<and> typeof (get_prop obj2 key) = ''object''")
    case True
    from "3.IH"(1) [OF ns True fv] obtain merged where
      m: "deepMergeObjects v (get_prop obj2 key) = Inr merged" by blast
    from "3.IH"(2) [OF ns True m ns fr] obtain r where
      "merge_own_keys obj1 rest obj2 (set_prop key merged out) = Inr r" by blast
    with ns True m show ?thesis by (simp del: deepMergeObjects.simps)
  next
    case False
    from "3.IH"(3) [OF ns False ns fr] obtain r where
      "merge_own_keys obj1 rest obj2 (set_prop key v out) = Inr r" by blast
    with ns False show ?thesis by (auto simp del: deepMergeObjects.simps)
  qed
qed

lemma deepMergeObjects_returns:
  "hasOwnProperty_free obj1 \<Longrightarrow> \<exists>r. deepMergeObjects obj1 obj2 = Inr r"
  by (rule deepMergeObjects_returns_aux(1))

lemma map_of_set_prop:
  "key \<noteq> k \<Longrightarrow> map_of (set_prop k v out) key = map_of out key"
  "k \<noteq> ''__proto__'' \<Longrightarrow> map_of (set_prop k v out) k = Some v"
  by (simp_all add: set_prop_def update_conv')

text \<open>What the loop leaves under a key, given that it ran to its end.\<close>

lemma map_of_merge_own_keys:
  assumes "distinct (map fst kvs)"
    and "merge_own_keys obj1 kvs obj2 out = Inr out'"
    and "key \<noteq> ''__proto__'' \<or> map_of kvs key = None"
  shows "map_of out' key =
     (case map_of kvs key of
        None \<Rightarrow> map_of out key
      | Some v \<Rightarrow>
          if is_object v \<and> is_object (get_prop obj2 key)
          then (case deepMergeObjects v (get_prop obj2 key) of
                  Inl e \<Rightarrow> None | Inr merged \<Rightarrow> Some merged)
          else Some v)"
  using assms
proof (induction kvs arbitrary: out)
  case Nil
  then show ?case by simp
next
  case (Cons kv kvs)
  obtain k w where kv: "kv = (k, w)" by (cases kv)
  let ?both = "is_object w \<and> is_object (get_prop obj2 k)"
  from Cons.prems(1) kv have d: "distinct (map fst kvs)" and n: "map_of kvs k = None"
    by (simp_all add: map_of_eq_None_iff)
  from Cons.prems(3) kv have c: "key \<noteq> ''__proto__'' \<or> map_of kvs key = None"
    by (auto split: if_splits)
  from Cons.prems(3) kv have kk: "key = k \<Longrightarrow> k \<noteq> ''__proto__''"
    by auto
  obtain x where x: "merge_own_keys obj1 kvs obj2 (set_prop k x out) = Inr out'"
    and xv: "x = (if ?both then (case deepMergeObjects w (get_prop obj2 k) of
                  Inl e \<Rightarrow> w | Inr merged \<Rightarrow> merged) else w)"
    and ok: "?both \<Longrightarrow> \<exists>m. deepMergeObjects w (get_prop obj2 k) = Inr m"
    using Cons.prems(2) kv
    by (auto simp: is_object_def split: if_splits sum.splits simp del: deepMergeObjects.simps)
  from Cons.IH [OF d x c]
  have ih: "map_of out' key =
     (case map_of kvs key of
        None \<Rightarrow> map_of (set_prop k x out) key
      | Some v \<Rightarrow>
          if is_object v \<and> is_object (get_prop obj2 key)
          then (case deepMergeObjects v (get_prop obj2 key) of
                  Inl e \<Rightarrow> None | Inr merged \<Rightarrow> Some merged)
          else Some v)" .
  show ?case
  proof (cases "key = k")
    case True
    with n kk have "map_of out' key = Some x"
      using ih by (simp add: map_of_set_prop)
    with True kv xv ok show ?thesis
      by (auto simp del: deepMergeObjects.simps)
  next
    case False
    then have "map_of (set_prop k x out) key = map_of out key"
      by (simp add: map_of_set_prop)
    with False ih kv show ?thesis
      by (cases "map_of kvs key") (simp_all del: deepMergeObjects.simps)
  qed
qed

text \<open>
  Claim C10, as amended. If \<^verbatim>\<open>obj2\<close> is \<^verbatim>\<open>null\<close> or \<^verbatim>\<open>undefined\<close>,
  \<^verbatim>\<open>deepMergeObjects(obj1, obj2)\<close> returns \<^verbatim>\<open>obj1\<close> itself. Otherwise, when no
  object within \<^verbatim>\<open>obj1\<close> has an own property named \<^verbatim>\<open>hasOwnProperty\<close>, the call
  returns an object that gives precedence to \<^verbatim>\<open>obj1\<close>: for every key other than
  \<^verbatim>\<open>__proto__\<close>, a key of \<^verbatim>\<open>obj1\<close> whose values in \<^verbatim>\<open>obj1\<close> and \<^verbatim>\<open>obj2\<close>
  are not both objects has the value of \<^verbatim>\<open>obj1\<close>, and a key of \<^verbatim>\<open>obj1\<close> whose
  values are both objects has the deep merge of the two values, under the same
  precedence; a key that \<^verbatim>\<open>obj1\<close> does not have is as among the own properties of
  \<^verbatim>\<open>obj2\<close> (there with the value of \<^verbatim>\<open>obj2\<close>, or absent).
\<close>

theorem deepMergeObjects_prefers_obj1:
  "(obj2 = VNull \<or> obj2 = VUndefined \<longrightarrow> deepMergeObjects obj1 obj2 = Inr obj1) \<and>
   (obj2 \<noteq> VNull \<and> obj2 \<noteq> VUndefined \<and>
    distinct (map fst (own_props obj1)) \<and> hasOwnProperty_free obj1 \<longrightarrow>
      (\<exists>out. deepMergeObjects obj1 obj2 = Inr (VObj out) \<and>
         (\<forall>key v1.
            key \<noteq> ''__proto__'' \<and> map_of (own_props obj1) key = Some v1 \<and>
            \<not> (is_object v1 \<and> is_object (get_prop obj2 key)) \<longrightarrow>
              map_of out key = Some v1) \<and>
         (\<forall>key v1.
            key \<noteq> ''__proto__'' \<and> map_of (own_props obj1) key = Some v1 \<and>
            is_object v1 \<and> is_object (get_prop obj2 key) \<longrightarrow>
              (\<exists>merged. deepMergeObjects v1 (get_prop obj2 key) = Inr merged \<and>
                 map_of out key = Some merged)) \<and>
         (\<forall>key.
            map_of (own_props obj1) key = None \<longrightarrow>
              map_of out key = map_of (own_props obj2) key)))"
proof (intro conjI impI)
  assume "obj2 = VNull \<or> obj2 = VUndefined"
  then show "deepMergeObjects obj1 obj2 = Inr obj1" by auto
next
  assume a: "obj2 \<noteq> VNull \<and> obj2 \<noteq> VUndefined \<and>
    distinct (map fst (own_props obj1)) \<and> hasOwnProperty_free obj1"
  then have d: "distinct (map fst (own_props obj1))" and f: "hasOwnProperty_free obj1"
    by simp_all
  from deepMergeObjects_returns [OF f, of obj2] obtain r where
    r: "deepMergeObjects obj1 obj2 = Inr r" ..
  with a obtain out where
    l: "merge_own_keys obj1 (own_props obj1) obj2 (own_props obj2) = Inr out"
    and o: "r = VObj out"
    by (auto split: sum.splits)
  note m = map_of_merge_own_keys [OF d l]
  have 1: "map_of out key = Some v1"
    if "key \<noteq> ''__proto__'' \<and> map_of (own_props obj1) key = Some v1 \<and>
        \<not> (is_object v1 \<and> is_object (get_prop obj2 key))" for key v1
    using m [of key] that by (simp del: deepMergeObjects.simps)
  have 2: "\<exists>merged. deepMergeObjects v1 (get_prop obj2 key) = Inr merged \<and>
      map_of out key = Some merged"
    if "key \<noteq> ''__proto__'' \<and> map_of (own_props obj1) key = Some v1 \<and>
        is_object v1 \<and> is_object (get_prop obj2 key)" for key v1
  proof -
    from that have f1: "hasOwnProperty_free v1"
      using own_props_free [OF f, of "(key, v1)"] by (auto dest: map_of_SomeD)
    from deepMergeObjects_returns [OF f1, of "get_prop obj2 key"] obtain merged where
      i: "deepMergeObjects v1 (get_prop obj2 key) = Inr merged" ..
    with m [of key] that have "map_of out key = Some merged"
      by (simp del: deepMergeObjects.simps)
    with i show ?thesis by blast
  qed
  have 3: "map_of out key = map_of (own_props obj2) key"
    if "map_of (own_props obj1) key = None" for key
    using m [of key] that by (simp del: deepMergeObjects.simps)
  from r o 1 2 3
  show "\<exists>out. deepMergeObjects obj1 obj2 = Inr (VObj out) \<and>
         (\<forall>key v1.
            key \<noteq> ''__proto__'' \<and> map_of (own_props obj1) key = Some v1 \<and>
            \<not> (is_object v1 \<and> is_object (get_prop obj2 key)) \<longrightarrow>
              map_of out key = Some v1) \<and>
         (\<forall>key v1.
            key \<noteq> ''__proto__'' \<and> map_of (own_props obj1) key = Some v1 \<and>
            is_object v1 \<and> is_object (get_prop obj2 key) \<longrightarrow>
              (\<exists>merged. deepMergeObjects v1 (get_prop obj2 key) = Inr merged \<and>
                 map_of out key = Some merged)) \<and>
         (\<forall>key.
            map_of (own_props obj1) key = None \<longrightarrow>
              map_of out key = map_of (own_props obj2) key)"
    by (intro exI [of _ out]) blast
qed

lemma deepMergeObjects_config:
  "deepMergeObjects config1 config2 =
     Inr (VObj [(''a'', VNum 1), (''b'', VNum 3), (''c'', VObj [(''x'', VNum 1), (''y'', VNum 6)])])"
  by (simp add: config1_def config2_def get_prop_def set_prop_def)

theorem deepMergeObjects_prefers_obj1_witness:
  "config2 \<noteq> VNull \<and> config2 \<noteq> VUndefined \<and>
   distinct (map fst (own_props config1)) \<and> hasOwnProperty_free config1 \<and>
   (\<exists>out. deepMergeObjects config1 config2 = Inr (VObj out) \<and>
      map_of out ''a'' = Some (VNum 1) \<and>
      map_of out ''b'' = Some (VNum 3) \<and>
      (\<exists>merged.
         deepMergeObjects (VObj [(''x'', VNum 1)]) (VObj [(''x'', VNum 5), (''y'', VNum 6)]) =
           Inr merged \<and>
         map_of out ''c'' = Some merged)) \<and>
   deepMergeObjects config1 VNull = Inr config1"
proof -
  have n: "config2 \<noteq> VNull \<and> config2 \<noteq> VUndefined \<and>
      distinct (map fst (own_props config1)) \<and> hasOwnProperty_free config1"
    by (simp add: config1_def config2_def)
  have a: "''a'' \<noteq> ''__proto__'' \<and> map_of (own_props config1) ''a'' = Some (VNum 1) \<and>
      \<not> (is_object (VNum 1) \<and> is_object (get_prop config2 ''a''))"
    by (simp add: config1_def is_object_def)
  have b: "map_of (own_props config1) ''b'' = None"
    "map_of (own_props config2) ''b'' = Some (VNum 3)"
    by (simp_all add: config1_def config2_def)
  have c: "''c'' \<noteq> ''__proto__'' \<and>
      map_of (own_props config1) ''c'' = Some (VObj [(''x'', VNum 1)]) \<and>
      is_object (VObj [(''x'', VNum 1)]) \<and> is_object (get_prop config2 ''c'')"
    "get_prop config2 ''c'' = VObj [(''x'', VNum 5), (''y'', VNum 6)]"
    by (simp_all add: config1_def config2_def is_object_def get_prop_def)
  from deepMergeObjects_prefers_obj1 [of config2 config1] n obtain out where
    o: "deepMergeObjects config1 config2 = Inr (VObj out)"
    and o1: "\<And>key v1. key \<noteq> ''__proto__'' \<and> map_of (own_props config1) key = Some v1 \<and>
            \<not> (is_object v1 \<and> is_object (get_prop config2 key)) \<Longrightarrow> map_of out key = Some v1"
    and o2: "\<And>key v1. key \<noteq> ''__proto__'' \<and> map_of (own_props config1) key = Some v1 \<and>
            is_object v1 \<and> is_object (get_prop config2 key) \<Longrightarrow>
              (\<exists>merged. deepMergeObjects v1 (get_prop config2 key) = Inr merged \<and>
                 map_of out key = Some merged)"
    and o3: "\<And>key. map_of (own_props config1) key = None \<Longrightarrow>
              map_of out key = map_of (own_props config2) key"
    by blast
  from o1 [OF a] have ra: "map_of out ''a'' = Some (VNum 1)" .
  from o3 [OF b(1)] b(2) have rb: "map_of out ''b'' = Some (VNum 3)" by simp
  from o2 [OF c(1)] c(2) have rc: "\<exists>merged.
         deepMergeObjects (VObj [(''x'', VNum 1)]) (VObj [(''x'', VNum 5), (''y'', VNum 6)]) =
           Inr merged \<and>
         map_of out ''c'' = Some merged"
    by (simp del: deepMergeObjects.simps)
  from deepMergeObjects_prefers_obj1 [of VNull config1]
  have rn: "deepMergeObjects config1 VNull = Inr config1" by blast
  from n o ra rb rc rn show ?thesis by blast
qed

text \<open>
  Claim C10 as stated, for all objects, fails. When \<^verbatim>\<open>obj1\<close> has an own property
  named \<^verbatim>\<open>hasOwnProperty\<close> (as \<^verbatim>\<open>JSON.parse\<close> can produce), the call
  \<^verbatim>\<open>obj1.hasOwnProperty(key)\<close> throws and there is no result, although the key
  \<^verbatim>\<open>a\<close> is in both objects. And an own \<^verbatim>\<open>__proto__\<close> of \<^verbatim>\<open>obj1\<close> does not
  reach the result: the assignment goes to the inherited setter, which ignores the
  number 5.
\<close>

theorem deepMergeObjects_not_for_all_objects:
  "deepMergeObjects (VObj [(''hasOwnProperty'', VNum 1), (''a'', VNum 1)]) (VObj [(''a'', VNum 2)]) =
     Inl not_a_function \<and>
   deepMergeObjects (VObj [(''__proto__'', VNum 5), (''a'', VNum 1)]) (VObj [(''b'', VNum 2)]) =
     Inr (VObj [(''b'', VNum 2), (''a'', VNum 1)])"
  by (simp add: get_prop_def set_prop_def)

section \<open>The declared type of \<^verbatim>\<open>transformationTypes\<close>\<close>

text \<open>
  Claim C8 fails on the code. \<^verbatim>\<open>interface ImageModel\<close> declares
  \<^verbatim>\<open>transformationTypes: string[]\<close>, but the schema that decides what is persisted
  declares the path as a required \<^verbatim>\<open>String\<close>, not as an array of strings: a
  persisted Image record holds one string there.
\<close>

theorem ImageSchema_transformationTypes_is_String:
  "map_of ImageModel ''transformationTypes'' = Some (TsArray TsString, False) \<and>
   map_option path_type (map_of ImageSchema ''transformationTypes'') = Some SchemaString \<and>
   map_option required (map_of ImageSchema ''transformationTypes'') = Some True \<and>
   map_option array_of_strings (map_of ImageSchema ''transformationTypes'') = Some False"
  by (simp add: ImageModel_def ImageSchema_def path_def array_of_strings_def)

end
